theory Spec2Isabelle
  imports Complex_Main
begin

section \<open>Width units of Streetmix: \<^verbatim>\<open>assets/scripts/util/width_units.js\<close>\<close>

text \<open>
  The module converts the text a user types into a width (a number of feet) and a width
  back into a display string. It is embedded function by function. The JavaScript
  platform functions it calls (\<^verbatim>\<open>Number.parseFloat\<close>, \<^verbatim>\<open>String.prototype.split\<close>,
  \<^verbatim>\<open>Array.prototype.reduce\<close>, \<^verbatim>\<open>Number.prototype.toString\<close>, \<^verbatim>\<open>Intl.NumberFormat\<close>,
  the regular expressions) are written out after ECMAScript.

  Numbers. A JavaScript number is a double. Here a finite number is an exact rational:
  arithmetic does not round, does not overflow and has no negative zero. The three
  values that are not finite are kept (\<open>NaN\<close>, \<open>Infinity\<close>, \<open>-Infinity\<close>), since
  \<^verbatim>\<open>parseFloat\<close> returns them on ordinary strings.

  Strings. A JavaScript string is a sequence of UTF-16 code units; a code unit is a
  natural number here, and \<open>str\<close> turns an ASCII literal into its code units.
\<close>

subsection \<open>Values\<close>

type_synonym jschar = nat
type_synonym jsstring = "jschar list"

definition str :: "string \<Rightarrow> jsstring" where
  "str s = map of_char s"

datatype number = NaN | Fin rat | PosInfinity | NegInfinity

datatype jsval = Undefined | Str jsstring | Num number

datatype error = TypeError

text \<open>
  Modelled from the spec: \<^verbatim>\<open>SETTINGS_UNITS_IMPERIAL\<close> and \<^verbatim>\<open>SETTINGS_UNITS_METRIC\<close> are
  imported from \<^verbatim>\<open>../users/localization\<close>, which is not among the sources. The spec
  gives the unit system as an enumeration of exactly two values, either of which counts
  as a unit system that is provided. A \<^verbatim>\<open>units\<close> argument is a \<open>units option\<close>, \<open>None\<close>
  standing for an argument that is absent (or falsy).
\<close>

datatype units = SETTINGS_UNITS_IMPERIAL | SETTINGS_UNITS_METRIC

text \<open>Truthiness of a number (\<^verbatim>\<open>if (width)\<close>): zero and \<open>NaN\<close> are falsy.\<close>

fun truthy :: "number \<Rightarrow> bool" where
  "truthy NaN = False"
| "truthy (Fin x) = (x \<noteq> 0)"
| "truthy PosInfinity = True"
| "truthy NegInfinity = True"

text \<open>\<^verbatim>\<open>a * m\<close> for a finite, positive \<open>m\<close> (every multiplier of the module is one).\<close>

fun num_times :: "number \<Rightarrow> rat \<Rightarrow> number" where
  "num_times NaN m = NaN"
| "num_times (Fin x) m = Fin (x * m)"
| "num_times PosInfinity m = PosInfinity"
| "num_times NegInfinity m = NegInfinity"

text \<open>\<^verbatim>\<open>a + b\<close> on numbers.\<close>

fun num_plus :: "number \<Rightarrow> number \<Rightarrow> number" where
  "num_plus NaN b = NaN"
| "num_plus a NaN = NaN"
| "num_plus (Fin x) (Fin y) = Fin (x + y)"
| "num_plus PosInfinity NegInfinity = NaN"
| "num_plus NegInfinity PosInfinity = NaN"
| "num_plus PosInfinity b = PosInfinity"
| "num_plus a PosInfinity = PosInfinity"
| "num_plus NegInfinity b = NegInfinity"
| "num_plus a NegInfinity = NegInfinity"

text \<open>\<^verbatim>\<open>-a\<close>, \<^verbatim>\<open>a - b\<close> and \<^verbatim>\<open>Math.floor(a)\<close>.\<close>

fun num_neg :: "number \<Rightarrow> number" where
  "num_neg NaN = NaN"
| "num_neg (Fin x) = Fin (- x)"
| "num_neg PosInfinity = NegInfinity"
| "num_neg NegInfinity = PosInfinity"

definition num_minus :: "number \<Rightarrow> number \<Rightarrow> number" where
  "num_minus a b = num_plus a (num_neg b)"

fun math_floor :: "number \<Rightarrow> number" where
  "math_floor (Fin x) = Fin (of_int \<lfloor>x\<rfloor>)"
| "math_floor a = a"

text \<open>\<open>0 \<le> a\<close> on numbers; \<open>NaN\<close> compares false with everything.\<close>

fun num_nonneg :: "number \<Rightarrow> bool" where
  "num_nonneg (Fin x) = (0 \<le> x)"
| "num_nonneg PosInfinity = True"
| "num_nonneg a = False"

subsection \<open>Strings of the platform\<close>

text \<open>\<^verbatim>\<open>s.indexOf(c)\<close> for a needle \<open>c\<close> of one code unit: the first index, or -1.\<close>

fun indexOf :: "jsstring \<Rightarrow> jschar \<Rightarrow> int" where
  "indexOf [] c = - 1"
| "indexOf (x # xs) c =
     (if x = c then 0 else (let i = indexOf xs c in if i = - 1 then - 1 else i + 1))"

text \<open>\<^verbatim>\<open>s.split(c)\<close> for a separator of one code unit: never an empty array.\<close>

fun split :: "jsstring \<Rightarrow> jschar \<Rightarrow> jsstring list" where
  "split [] c = [[]]"
| "split (x # xs) c =
     (if x = c then [] # split xs c
      else (case split xs c of [] \<Rightarrow> [[x]] | p # ps \<Rightarrow> (x # p) # ps))"

text \<open>
  \<^verbatim>\<open>s.replace(new RegExp(c), r)\<close> for a pattern of one ordinary code unit and no flag:
  only the first occurrence is replaced.
\<close>

fun replace_first :: "jschar \<Rightarrow> jsstring \<Rightarrow> jsstring \<Rightarrow> jsstring" where
  "replace_first c r [] = []"
| "replace_first c r (x # xs) = (if x = c then r @ xs else x # replace_first c r xs)"

text \<open>\<^verbatim>\<open>s.replace(/c/g, r)\<close>: every occurrence is replaced.\<close>

definition replace_all :: "jschar \<Rightarrow> jsstring \<Rightarrow> jsstring \<Rightarrow> jsstring" where
  "replace_all c r s = concat (map (\<lambda>x. if x = c then r else [x]) s)"

subsection \<open>\<^verbatim>\<open>Number.parseFloat\<close>\<close>

definition is_digit :: "jschar \<Rightarrow> bool" where
  "is_digit c \<longleftrightarrow> 48 \<le> c \<and> c \<le> 57"

text \<open>The value of a run of decimal digits, most significant first.\<close>

definition digits_value :: "jsstring \<Rightarrow> nat" where
  "digits_value ds = foldl (\<lambda>a c. 10 * a + (c - 48)) 0 ds"

text \<open>White space and line terminators, which \<^verbatim>\<open>parseFloat\<close> skips at the start.\<close>

definition is_whitespace :: "jschar \<Rightarrow> bool" where
  "is_whitespace c \<longleftrightarrow>
     c \<in> {0x9, 0xA, 0xB, 0xC, 0xD, 0x20, 0xA0, 0x1680, 0x2028, 0x2029, 0x202F, 0x205F,
          0x3000, 0xFEFF} \<or> (0x2000 \<le> c \<and> c \<le> 0x200A)"

definition pow10 :: "int \<Rightarrow> rat" where
  "pow10 e = (if 0 \<le> e then 10 ^ nat e else 1 / 10 ^ nat (- e))"

text \<open>
  The exponent part at the start of \<open>r\<close> (\<^verbatim>\<open>e\<close> or \<^verbatim>\<open>E\<close>, an optional sign, at least
  one digit); 0 when \<open>r\<close> does not start with one.
\<close>

definition exp_digits :: "jsstring \<Rightarrow> int" where
  "exp_digits r = int (digits_value (takeWhile is_digit r))"

definition exponent_part :: "jsstring \<Rightarrow> int" where
  "exponent_part r =
     (case r of
        [] \<Rightarrow> 0
      | c # r1 \<Rightarrow>
          if c = 0x65 \<or> c = 0x45 then
            (case r1 of
               [] \<Rightarrow> 0
             | s # r2 \<Rightarrow>
                 if s = 0x2B then exp_digits r2
                 else if s = 0x2D then - exp_digits r2
                 else exp_digits r1)
          else 0)"

text \<open>
  The longest prefix that is an unsigned \<^verbatim>\<open>StrDecimalLiteral\<close>: \<^verbatim>\<open>Infinity\<close>, or digits
  with an optional point, fraction digits and exponent part, at least one digit before
  the exponent. \<open>NaN\<close> when there is no such prefix.
\<close>

definition unsigned_literal :: "jsstring \<Rightarrow> number" where
  "unsigned_literal t =
     (if take 8 t = str ''Infinity'' then PosInfinity
      else
        (let ip = takeWhile is_digit t;
             r1 = dropWhile is_digit t;
             dot = (r1 \<noteq> [] \<and> hd r1 = 0x2E);
             fp = (if dot then takeWhile is_digit (tl r1) else []);
             r2 = (if dot then dropWhile is_digit (tl r1) else r1)
         in if ip = [] \<and> fp = [] then NaN
            else Fin ((of_nat (digits_value ip) + of_nat (digits_value fp) / 10 ^ length fp)
                      * pow10 (exponent_part r2))))"

definition parseFloat :: "jsstring \<Rightarrow> number" where
  "parseFloat s =
     (let t = dropWhile is_whitespace s
      in case t of
           [] \<Rightarrow> NaN
         | c # r \<Rightarrow>
             if c = 0x2B then unsigned_literal r
             else if c = 0x2D then num_neg (unsigned_literal r)
             else unsigned_literal t)"

subsection \<open>The tables of the module\<close>

definition IMPERIAL_METRIC_MULTIPLIER :: rat where
  "IMPERIAL_METRIC_MULTIPLIER = 30 / 100"

definition METRIC_PRECISION :: nat where
  "METRIC_PRECISION = 3"

definition IMPERIAL_PRECISION :: nat where
  "IMPERIAL_PRECISION = 3"

record conversion =
  text_of :: jsstring
  multiplier :: rat

definition WIDTH_INPUT_CONVERSION :: "conversion list" where
  "WIDTH_INPUT_CONVERSION =
     [\<lparr>text_of = str ''m'', multiplier = 1 / IMPERIAL_METRIC_MULTIPLIER\<rparr>,
      \<lparr>text_of = str ''cm'', multiplier = 1 / 100 / IMPERIAL_METRIC_MULTIPLIER\<rparr>,
      \<lparr>text_of = [0x22], multiplier = 1 / 12\<rparr>,
      \<lparr>text_of = str ''in'', multiplier = 1 / 12\<rparr>,
      \<lparr>text_of = str ''in.'', multiplier = 1 / 12\<rparr>,
      \<lparr>text_of = str ''inch'', multiplier = 1 / 12\<rparr>,
      \<lparr>text_of = str ''inches'', multiplier = 1 / 12\<rparr>,
      \<lparr>text_of = [0x27], multiplier = 1\<rparr>,
      \<lparr>text_of = str ''ft'', multiplier = 1\<rparr>,
      \<lparr>text_of = str ''ft.'', multiplier = 1\<rparr>,
      \<lparr>text_of = str ''feet'', multiplier = 1\<rparr>]"

text \<open>
  The vulgar fractions, key and glyph, in the order of the object literal (the order in
  which \<^verbatim>\<open>for ... in\<close> visits them). Every glyph is one code unit.
\<close>

definition IMPERIAL_VULGAR_FRACTIONS :: "(jsstring \<times> jschar) list" where
  "IMPERIAL_VULGAR_FRACTIONS =
     [(str ''.125'', 0x215B),
      (str ''.25'', 0xBC),
      (str ''.375'', 0x215C),
      (str ''.5'', 0xBD),
      (str ''.625'', 0x215D),
      (str ''.75'', 0xBE),
      (str ''.875'', 0x215E)]"

subsection \<open>\<^verbatim>\<open>parseStringForUnits\<close>\<close>

text \<open>
  One element of the pattern \<^verbatim>\<open>'[\\d\\.]' + text + '$'\<close> against one code unit: the text
  is spliced into the pattern as it is, so a point in it (\<^verbatim>\<open>in.\<close>, \<^verbatim>\<open>ft.\<close>) is the
  wildcard, which matches every code unit but a line terminator.
\<close>

definition pattern_char_matches :: "jschar \<Rightarrow> jschar \<Rightarrow> bool" where
  "pattern_char_matches p c \<longleftrightarrow>
     (if p = 0x2E then c \<notin> {0xA, 0xD, 0x2028, 0x2029} else c = p)"

text \<open>
  \<^verbatim>\<open>widthInput.match(new RegExp('[\\d\\.]' + text + '$'))\<close> is not null: the end of the
  input is a digit or a point followed by the text.
\<close>

definition unit_matches :: "jsstring \<Rightarrow> jsstring \<Rightarrow> bool" where
  "unit_matches txt w \<longleftrightarrow>
     length txt < length w \<and>
     (let tail = drop (length w - length txt - 1) w
      in (is_digit (hd tail) \<or> hd tail = 0x2E) \<and>
         list_all2 pattern_char_matches txt (tl tail))"

definition parseStringForUnits :: "jsstring \<Rightarrow> units option \<Rightarrow> number" where
  "parseStringForUnits widthInput units =
     (let widthInput =
            (if indexOf widthInput 0x2D \<noteq> - 1 then replace_all 0x2D [] widthInput
             else widthInput);
          width = parseFloat widthInput
      in if truthy width then
           (let multiplier =
                  (if units = Some SETTINGS_UNITS_METRIC then 1 / IMPERIAL_METRIC_MULTIPLIER
                   else 1);
                multiplier =
                  (case find (\<lambda>e. unit_matches (text_of e) widthInput) WIDTH_INPUT_CONVERSION of
                     Some e \<Rightarrow> conversion.multiplier e
                   | None \<Rightarrow> multiplier)
            in num_times width multiplier)
         else Fin 0)"

subsection \<open>\<^verbatim>\<open>Number.prototype.toString\<close>\<close>

text \<open>The decimal digits of a natural number.\<close>

function nat_digits :: "nat \<Rightarrow> jsstring" where
  "nat_digits n = (if n < 10 then [48 + n] else nat_digits (n div 10) @ [48 + n mod 10])"
  by pat_completeness auto
termination
  by (relation "measure (\<lambda>n. n)") auto

declare nat_digits.simps [simp del]

text \<open>
  For \<open>0 < x < 1\<close>, the exponent \<open>n \<le> 0\<close> with \<open>10 ^ (n - 1) \<le> x < 10 ^ n\<close>, found by
  scaling \<open>x\<close> up until it reaches one tenth.
\<close>

function small_exponent :: "rat \<Rightarrow> int" where
  "small_exponent x = (if 0 < x \<and> x * 10 < 1 then small_exponent (x * 10) - 1 else 0)"
  by pat_completeness auto
termination
proof (relation "measure (\<lambda>x. nat \<lceil>1 / x\<rceil>)")
  show "wf (measure (\<lambda>x::rat. nat \<lceil>1 / x\<rceil>))" by simp
next
  fix x :: rat
  assume a: "0 < x \<and> x * 10 < 1"
  define y where "y = 1 / x"
  have y: "10 < y" using a by (simp add: y_def field_simps)
  have e: "1 / (x * 10) = y / 10" by (simp add: y_def)
  have "y / 10 \<le> y - 9" using y by simp
  then have "\<lceil>y / 10\<rceil> \<le> \<lceil>y - 9\<rceil>" by (rule ceiling_mono)
  moreover have "\<lceil>y - 9\<rceil> = \<lceil>y\<rceil> - 9" by simp
  moreover have "0 < \<lceil>y\<rceil>" using y by (simp add: ceiling_less_cancel)
  ultimately have "nat \<lceil>y / 10\<rceil> < nat \<lceil>y\<rceil>" by linarith
  then show "(x * 10, x) \<in> measure (\<lambda>x. nat \<lceil>1 / x\<rceil>)" by (simp only: e y_def in_measure)
qed

declare small_exponent.simps [simp del]

text \<open>For \<open>0 < x\<close>, the exponent \<open>n\<close> with \<open>10 ^ (n - 1) \<le> x < 10 ^ n\<close>.\<close>

definition decimal_exponent :: "rat \<Rightarrow> int" where
  "decimal_exponent x =
     (if 1 \<le> x then int (length (nat_digits (nat \<lfloor>x\<rfloor>))) else small_exponent x)"

text \<open>Rounding to the nearest integer, a tie going up.\<close>

definition round_half_up :: "rat \<Rightarrow> int" where
  "round_half_up x = \<lfloor>x + 1 / 2\<rfloor>"

definition strip_trailing_zeros :: "jsstring \<Rightarrow> jsstring" where
  "strip_trailing_zeros ds = rev (dropWhile (\<lambda>c. c = 48) (rev ds))"

text \<open>
  The digits \<open>s\<close> and the exponent \<open>n\<close> of \<^verbatim>\<open>Number::toString\<close> for \<open>0 < x\<close>: the shortest
  digit string with \<open>s * 10 ^ (n - k) = x\<close>, \<open>k\<close> its length. No double prints more than
  17 significant digits; a rational that needs more is printed rounded to 17.
\<close>

definition significant_digits :: "rat \<Rightarrow> jsstring \<times> int" where
  "significant_digits x =
     (let n = decimal_exponent x;
          s = nat (round_half_up (x * pow10 (17 - n)))
      in if 10 ^ 17 \<le> s then (strip_trailing_zeros (nat_digits (s div 10)), n + 1)
         else (strip_trailing_zeros (nat_digits s), n))"

text \<open>The layout of \<^verbatim>\<open>Number::toString\<close> from the digits and the exponent.\<close>

definition layout_digits :: "jsstring \<Rightarrow> int \<Rightarrow> jsstring" where
  "layout_digits ds n =
     (let k = int (length ds)
      in if k \<le> n \<and> n \<le> 21 then ds @ replicate (nat (n - k)) 48
         else if 0 < n \<and> n \<le> 21 then take (nat n) ds @ [0x2E] @ drop (nat n) ds
         else if - 6 < n \<and> n \<le> 0 then [48, 0x2E] @ replicate (nat (- n)) 48 @ ds
         else
           (let e = n - 1;
                sign = (if e < 0 then 0x2D else 0x2B);
                mant = (if k = 1 then ds else [hd ds, 0x2E] @ tl ds)
            in mant @ [0x65, sign] @ nat_digits (nat \<bar>e\<bar>)))"

definition positive_to_string :: "rat \<Rightarrow> jsstring" where
  "positive_to_string x = (case significant_digits x of (ds, n) \<Rightarrow> layout_digits ds n)"

fun number_to_string :: "number \<Rightarrow> jsstring" where
  "number_to_string NaN = str ''NaN''"
| "number_to_string PosInfinity = str ''Infinity''"
| "number_to_string NegInfinity = str ''-Infinity''"
| "number_to_string (Fin x) =
     (if x = 0 then str ''0''
      else if x < 0 then 0x2D # positive_to_string (- x)
      else positive_to_string x)"

subsection \<open>\<^verbatim>\<open>processWidthInput\<close>\<close>

text \<open>
  The loop over \<^verbatim>\<open>IMPERIAL_VULGAR_FRACTIONS\<close>: for each glyph that occurs in the input,
  \<^verbatim>\<open>replace\<close> with a pattern that has no \<^verbatim>\<open>g\<close> flag.
\<close>

definition replace_fractions :: "jsstring \<Rightarrow> jsstring" where
  "replace_fractions w =
     fold (\<lambda>(i, glyph) w. if indexOf w glyph \<noteq> - 1 then replace_first glyph i w else w)
       IMPERIAL_VULGAR_FRACTIONS w"

text \<open>The three normalisations, in the order of the source.\<close>

definition normalize_input :: "jsstring \<Rightarrow> jsstring" where
  "normalize_input widthInput =
     replace_fractions (replace_all 0x2C [0x2E] (replace_all 0x20 [] widthInput))"

text \<open>\<^verbatim>\<open>v.toString()\<close>: a string is itself; \<^verbatim>\<open>undefined\<close> has no method.\<close>

fun to_string :: "jsval \<Rightarrow> error + jsstring" where
  "to_string Undefined = Inl TypeError"
| "to_string (Str s) = Inr s"
| "to_string (Num a) = Inr (number_to_string a)"

text \<open>
  The callback of \<^verbatim>\<open>reduce\<close>. \<open>prev\<close> is the first string of the array at the first
  call and a number afterwards; \<open>cur\<close> is a string of the array. The first call of
  \<^verbatim>\<open>parseStringForUnits\<close> is made without units.
\<close>

definition reduce_callback :: "units option \<Rightarrow> jsval \<Rightarrow> jsstring \<Rightarrow> error + jsval" where
  "reduce_callback units prev cur =
     (let cur = (if indexOf cur 0x22 = - 1 then cur @ [0x22] else cur)
      in case to_string prev of
           Inl e \<Rightarrow> Inl e
         | Inr p \<Rightarrow> Inr (Num (num_plus (parseStringForUnits p None)
                                        (parseStringForUnits cur units))))"

text \<open>
  \<^verbatim>\<open>array.reduce(callback)\<close> with no initial value: a \<^verbatim>\<open>TypeError\<close> on an empty array,
  the first element as it is on an array of one.
\<close>

fun reduce_from :: "(jsval \<Rightarrow> jsstring \<Rightarrow> error + jsval) \<Rightarrow> jsval \<Rightarrow> jsstring list \<Rightarrow> error + jsval" where
  "reduce_from f acc [] = Inr acc"
| "reduce_from f acc (x # xs) =
     (case f acc x of Inl e \<Rightarrow> Inl e | Inr acc' \<Rightarrow> reduce_from f acc' xs)"

fun reduce :: "(jsval \<Rightarrow> jsstring \<Rightarrow> error + jsval) \<Rightarrow> jsstring list \<Rightarrow> error + jsval" where
  "reduce f [] = Inl TypeError"
| "reduce f (x # xs) = reduce_from f (Str x) xs"

text \<open>
  \<^verbatim>\<open>widthInput[0] += "'"\<close>: on an empty array the element read is \<^verbatim>\<open>undefined\<close> and the
  array becomes \<^verbatim>\<open>["undefined'"]\<close>.
\<close>

fun append_to_first :: "jsstring list \<Rightarrow> jsstring \<Rightarrow> jsstring list" where
  "append_to_first [] s = [str ''undefined'' @ s]"
| "append_to_first (p # ps) s = (p @ s) # ps"

definition processWidthInput :: "jsstring option \<Rightarrow> units option \<Rightarrow> error + jsval" where
  "processWidthInput widthInput units =
     (if widthInput = None \<or> widthInput = Some [] \<or> units = None then Inr Undefined
      else
        (let widthInput = normalize_input (the widthInput)
         in if indexOf widthInput 0x27 \<noteq> - 1 \<and>
               int (length widthInput) > indexOf widthInput 0x27 + 1
            then reduce (reduce_callback units) (append_to_first (split widthInput 0x27) [0x27])
            else Inr (Num (parseStringForUnits widthInput units))))"

subsection \<open>\<^verbatim>\<open>Intl.NumberFormat\<close> and the formatting functions\<close>

text \<open>
  The formatter reads the locale from the store; the locale is fixed to \<^verbatim>\<open>en-US\<close> here:
  groups of three digits separated by a comma, a point before the fraction digits, at
  most \<open>p\<close> of them (\<^verbatim>\<open>maximumFractionDigits\<close>), rounded half away from zero, trailing
  zeros dropped, a hyphen before a negative number.
\<close>

fun group_digits :: "jsstring \<Rightarrow> jsstring" where
  "group_digits ds =
     (if length ds \<le> 3 then ds
      else group_digits (take (length ds - 3) ds) @ [0x2C] @ drop (length ds - 3) ds)"

declare group_digits.simps [simp del]

definition pad_left :: "nat \<Rightarrow> jsstring \<Rightarrow> jsstring" where
  "pad_left p ds = replicate (p - length ds) 48 @ ds"

definition format_decimal :: "nat \<Rightarrow> rat \<Rightarrow> jsstring" where
  "format_decimal p x =
     (let n = nat (round_half_up (\<bar>x\<bar> * 10 ^ p));
          fp = strip_trailing_zeros (pad_left p (nat_digits (n mod 10 ^ p)));
          body = group_digits (nat_digits (n div 10 ^ p)) @ (if fp = [] then [] else 0x2E # fp)
      in if x < 0 then 0x2D # body else body)"

fun intl_format :: "nat \<Rightarrow> number \<Rightarrow> jsstring" where
  "intl_format p NaN = str ''NaN''"
| "intl_format p PosInfinity = [0x221E]"
| "intl_format p NegInfinity = [0x2D, 0x221E]"
| "intl_format p (Fin x) = format_decimal p x"

text \<open>
  \<^verbatim>\<open>(value * IMPERIAL_METRIC_MULTIPLIER).toFixed(METRIC_PRECISION)\<close>. The source returns
  the string of \<^verbatim>\<open>toFixed\<close>, which the formatter converts back to the number it
  denotes; the embedding returns that number: the product rounded to three decimals,
  half away from zero.
\<close>

fun to_fixed :: "nat \<Rightarrow> number \<Rightarrow> number" where
  "to_fixed p (Fin x) = Fin (sgn x * of_int (round_half_up (\<bar>x\<bar> * 10 ^ p)) / 10 ^ p)"
| "to_fixed p a = a"

definition convertImperialMeasurementToMetric :: "number \<Rightarrow> number" where
  "convertImperialMeasurementToMetric v =
     to_fixed METRIC_PRECISION (num_times v IMPERIAL_METRIC_MULTIPLIER)"

definition stringifyMeasurementValue :: "number \<Rightarrow> units option \<Rightarrow> jsstring" where
  "stringifyMeasurementValue v units =
     (if \<not> truthy v then str ''0''
      else if units = Some SETTINGS_UNITS_IMPERIAL then intl_format IMPERIAL_PRECISION v
      else intl_format METRIC_PRECISION (convertImperialMeasurementToMetric v))"

text \<open>\<^verbatim>\<open>IMPERIAL_VULGAR_FRACTIONS[key]\<close>: the glyph of a key, if the object has the key.\<close>

definition vulgar_fraction :: "jsstring \<Rightarrow> jschar option" where
  "vulgar_fraction k = map_of IMPERIAL_VULGAR_FRACTIONS k"

definition getImperialMeasurementWithVulgarFractions :: "number \<Rightarrow> jsstring" where
  "getImperialMeasurementWithVulgarFractions v =
     (let remainder = num_minus v (math_floor v)
      in case vulgar_fraction (drop 1 (number_to_string remainder)) of
           Some fraction \<Rightarrow>
             if truthy (math_floor v)
             then stringifyMeasurementValue (math_floor v) (Some SETTINGS_UNITS_IMPERIAL) @ [fraction]
             else [fraction]
         | None \<Rightarrow> stringifyMeasurementValue v (Some SETTINGS_UNITS_IMPERIAL))"

text \<open>
  The break marker. Under the metric system the source appends the marker together with
  a hair space (U+200A, not the ASCII space), and the suffix is a hair space and \<^verbatim>\<open>m\<close>.
\<close>

definition wbr :: jsstring where
  "wbr = str ''<wbr>''"

definition prettifyWidth :: "number \<Rightarrow> units option \<Rightarrow> bool \<Rightarrow> jsstring" where
  "prettifyWidth width units markup =
     (if units = Some SETTINGS_UNITS_IMPERIAL then
        getImperialMeasurementWithVulgarFractions width
          @ (if markup then wbr else []) @ [0x27]
      else
        stringifyMeasurementValue width (Some SETTINGS_UNITS_METRIC)
          @ (if markup then wbr @ [0x200A] else []) @ [0x200A, 0x6D])"

subsection \<open>Vocabulary of the properties\<close>

text \<open>
  The unit suffix that \<^verbatim>\<open>prettifyWidth\<close> appends last: \<^verbatim>\<open>'\<close>, or a hair space (U+200A)
  and \<^verbatim>\<open>m\<close>.
\<close>

definition unit_suffix :: "units option \<Rightarrow> jsstring" where
  "unit_suffix units =
     (if units = Some SETTINGS_UNITS_IMPERIAL then [0x27] else [0x200A, 0x6D])"

text \<open>The number of places of \<open>s\<close> at which the (non-empty) string \<open>n\<close> occurs.\<close>

fun count_occurrences :: "jsstring \<Rightarrow> jsstring \<Rightarrow> nat" where
  "count_occurrences n [] = 0"
| "count_occurrences n (x # xs) =
     (if take (length n) (x # xs) = n then 1 else 0) + count_occurrences n xs"

text \<open>The distance of a number from a rational is at most \<open>d\<close>.\<close>

fun num_within :: "rat \<Rightarrow> number \<Rightarrow> rat \<Rightarrow> bool" where
  "num_within d (Fin y) x = (\<bar>y - x\<bar> \<le> d)"
| "num_within d a x = False"

text \<open>
  The text \<^verbatim>\<open>prettifyWidth\<close> starts from, before the marker and the suffix are appended:
  the first assignment to \<^verbatim>\<open>widthText\<close> in either branch.
\<close>

definition number_text :: "number \<Rightarrow> units option \<Rightarrow> jsstring" where
  "number_text v u =
     (if u = Some SETTINGS_UNITS_IMPERIAL then getImperialMeasurementWithVulgarFractions v
      else stringifyMeasurementValue v (Some SETTINGS_UNITS_METRIC))"

section \<open>Properties\<close>

subsection \<open>The platform's string functions\<close>

lemma indexOf_ge: "- 1 \<le> indexOf s c"
  by (induction s) (auto simp: Let_def)

lemma indexOf_absent: "indexOf s c = - 1 \<longleftrightarrow> c \<notin> set s"
proof (induction s)
  case Nil
  show ?case by simp
next
  case (Cons x xs)
  have "- 1 \<le> indexOf xs c" by (rule indexOf_ge)
  with Cons show ?case by (auto simp: Let_def)
qed

lemma replace_all_delete: "replace_all c [] s = filter (\<lambda>x. x \<noteq> c) s"
  by (induction s) (auto simp: replace_all_def)

lemma replace_all_single: "replace_all c [d] s = map (\<lambda>x. if x = c then d else x) s"
  by (induction s) (auto simp: replace_all_def)

lemma split_length: "1 \<le> length (split s c)"
  by (induction s) (auto split: list.splits)

lemma split_present: "c \<in> set s \<Longrightarrow> 2 \<le> length (split s c)"
proof (induction s)
  case Nil
  then show ?case by simp
next
  case (Cons x xs)
  have "1 \<le> length (split xs c)" by (rule split_length)
  with Cons show ?case by (auto split: list.splits)
qed

subsection \<open>The result of \<^verbatim>\<open>processWidthInput\<close> is a number or \<^verbatim>\<open>undefined\<close>\<close>

lemma reduce_callback_num:
  "prev \<noteq> Undefined \<Longrightarrow> \<exists>a. reduce_callback u prev cur = Inr (Num a)"
  by (cases prev) (simp_all add: reduce_callback_def Let_def)

lemma reduce_from_num:
  "\<exists>b. reduce_from (reduce_callback u) (Num a) xs = Inr (Num b)"
proof (induction xs arbitrary: a)
  case Nil
  show ?case by simp
next
  case (Cons x xs)
  obtain a' where "reduce_callback u (Num a) x = Inr (Num a')"
    using reduce_callback_num [of "Num a" u x] by auto
  with Cons show ?case by simp
qed

lemma reduce_two:
  assumes "2 \<le> length ps"
  shows "\<exists>b. reduce (reduce_callback u) ps = Inr (Num b)"
proof -
  from assms obtain p q qs where ps: "ps = p # q # qs"
    by (cases ps; cases "tl ps") auto
  obtain a where "reduce_callback u (Str p) q = Inr (Num a)"
    using reduce_callback_num [of "Str p" u q] by auto
  then show ?thesis using reduce_from_num [of u a qs] by (simp add: ps)
qed

lemma append_to_first_length: "ps \<noteq> [] \<Longrightarrow> length (append_to_first ps s) = length ps"
  by (cases ps) auto

lemma processWidthInput_num:
  assumes "w \<noteq> []"
  shows "\<exists>a. processWidthInput (Some w) (Some u) = Inr (Num a)"
proof -
  let ?n = "normalize_input w"
  show ?thesis
  proof (cases "indexOf ?n 0x27 \<noteq> - 1 \<and> int (length ?n) > indexOf ?n 0x27 + 1")
    case True
    then have "39 \<in> set ?n" by (simp add: indexOf_absent)
    then have "2 \<le> length (split ?n 39)" by (rule split_present)
    moreover then have "split ?n 39 \<noteq> []" by auto
    ultimately have "2 \<le> length (append_to_first (split ?n 39) [39])"
      by (simp add: append_to_first_length)
    from reduce_two [OF this, of "Some u"] True assms show ?thesis
      by (simp add: processWidthInput_def Let_def)
  next
    case False
    with assms show ?thesis by (auto simp add: processWidthInput_def Let_def)
  qed
qed

text \<open>
  Claim C3. \<^verbatim>\<open>processWidthInput\<close> returns \<^verbatim>\<open>undefined\<close> exactly when an argument is
  trivial: the input string is absent or empty, or the unit system is absent. On every
  other call the result is a number.
\<close>

theorem processWidthInput_undefined_iff:
  "processWidthInput widthInput units = Inr Undefined \<longleftrightarrow>
     widthInput = None \<or> widthInput = Some [] \<or> units = None"
proof (cases "widthInput = None \<or> widthInput = Some [] \<or> units = None")
  case True
  then show ?thesis by (auto simp: processWidthInput_def)
next
  case False
  then obtain w u where "widthInput = Some w" "w \<noteq> []" "units = Some u" by auto
  with processWidthInput_num [of w u] False show ?thesis by auto
qed

subsection \<open>Commas and periods\<close>

text \<open>
  Claim C8. Replacing every comma of the input by a period does not change the result
  of \<^verbatim>\<open>processWidthInput\<close>, for every input (a string or \<^verbatim>\<open>undefined\<close>) and every
  unit system; so \<^verbatim>\<open>1,5m\<close> and \<^verbatim>\<open>1.5m\<close> parse to the same width.
\<close>

theorem processWidthInput_comma_period:
  "processWidthInput (map_option (replace_all 0x2C [0x2E]) widthInput) units
     = processWidthInput widthInput units"
proof -
  have "replace_all 0x2C [0x2E] (replace_all 0x20 [] (replace_all 0x2C [0x2E] w))
        = replace_all 0x2C [0x2E] (replace_all 0x20 [] w)" for w
    by (induction w) (simp_all add: replace_all_delete replace_all_single)
  then have n: "normalize_input (replace_all 0x2C [0x2E] w) = normalize_input w" for w
    by (simp add: normalize_input_def)
  have e: "replace_all 0x2C [0x2E] w = [] \<longleftrightarrow> w = []" for w
    by (simp add: replace_all_single)
  show ?thesis
    by (cases widthInput) (simp_all add: processWidthInput_def n e)
qed

subsection \<open>No negative width\<close>

lemma pow10_pos: "0 < pow10 e"
  by (simp add: pow10_def)

lemma unsigned_literal_nonneg:
  "unsigned_literal t = NaN \<or> num_nonneg (unsigned_literal t)"
  using pow10_pos [of "exponent_part (dropWhile is_digit t)"]
    pow10_pos [of "exponent_part (dropWhile is_digit (tl (dropWhile is_digit t)))"]
  by (auto simp: unsigned_literal_def Let_def less_imp_le)

lemma parseFloat_nonneg:
  assumes "0x2D \<notin> set s"
  shows "parseFloat s = NaN \<or> num_nonneg (parseFloat s)"
proof (cases "dropWhile is_whitespace s")
  case Nil
  then show ?thesis by (simp add: parseFloat_def del: dropWhile_eq_Nil_conv)
next
  case (Cons c r)
  have "set (dropWhile is_whitespace s) \<subseteq> set s" by (rule set_dropWhileD [THEN subsetI])
  with Cons assms have "c \<noteq> 0x2D" by auto
  with Cons unsigned_literal_nonneg [of r] unsigned_literal_nonneg [of "c # r"]
  show ?thesis by (auto simp: parseFloat_def)
qed

lemma multiplier_pos: "e \<in> set WIDTH_INPUT_CONVERSION \<Longrightarrow> 0 < multiplier e"
  by (auto simp: WIDTH_INPUT_CONVERSION_def IMPERIAL_METRIC_MULTIPLIER_def)

lemma num_times_nonneg: "num_nonneg a \<Longrightarrow> 0 < m \<Longrightarrow> num_nonneg (num_times a m)"
  by (cases a) simp_all

lemma num_plus_nonneg: "num_nonneg a \<Longrightarrow> num_nonneg b \<Longrightarrow> num_nonneg (num_plus a b)"
  by (cases a; cases b) simp_all

lemma truthy_not_NaN: "truthy a \<Longrightarrow> a \<noteq> NaN"
  by (cases a) simp_all

lemma parseStringForUnits_nonneg: "num_nonneg (parseStringForUnits w u)"
proof -
  define w' where "w' = (if indexOf w 0x2D \<noteq> - 1 then replace_all 0x2D [] w else w)"
  have "0x2D \<notin> set w'"
    by (auto simp: w'_def indexOf_absent replace_all_delete)
  then have p: "parseFloat w' = NaN \<or> num_nonneg (parseFloat w')"
    by (rule parseFloat_nonneg)
  define m where "m = (case find (\<lambda>e. unit_matches (text_of e) w') WIDTH_INPUT_CONVERSION of
       Some e \<Rightarrow> multiplier e
     | None \<Rightarrow> (if u = Some SETTINGS_UNITS_METRIC then 1 / IMPERIAL_METRIC_MULTIPLIER else 1))"
  have "0 < m"
  proof (cases "find (\<lambda>e. unit_matches (text_of e) w') WIDTH_INPUT_CONVERSION")
    case None
    then show ?thesis by (simp add: m_def IMPERIAL_METRIC_MULTIPLIER_def)
  next
    case (Some e)
    then have "e \<in> set WIDTH_INPUT_CONVERSION" by (auto simp: find_Some_iff)
    with Some show ?thesis by (simp add: m_def multiplier_pos)
  qed
  have eq: "parseStringForUnits w u = (if truthy (parseFloat w') then num_times (parseFloat w') m else Fin 0)"
    by (simp add: parseStringForUnits_def Let_def w'_def m_def)
  show ?thesis
  proof (cases "truthy (parseFloat w')")
    case True
    with p have "num_nonneg (parseFloat w')" by (auto dest: truthy_not_NaN)
    with \<open>0 < m\<close> True show ?thesis by (simp add: eq num_times_nonneg)
  next
    case False
    then show ?thesis by (simp add: eq)
  qed
qed

lemma reduce_callback_nonneg:
  "prev \<noteq> Undefined \<Longrightarrow> \<exists>a. reduce_callback u prev cur = Inr (Num a) \<and> num_nonneg a"
  by (cases prev) (simp_all add: reduce_callback_def Let_def num_plus_nonneg parseStringForUnits_nonneg)

lemma reduce_from_nonneg:
  "acc \<noteq> Undefined \<Longrightarrow> xs \<noteq> [] \<Longrightarrow>
   \<exists>b. reduce_from (reduce_callback u) acc xs = Inr (Num b) \<and> num_nonneg b"
proof (induction xs arbitrary: acc)
  case Nil
  then show ?case by simp
next
  case (Cons x xs)
  obtain a where a: "reduce_callback u acc x = Inr (Num a)" "num_nonneg a"
    using reduce_callback_nonneg [OF Cons.prems(1), of u x] by auto
  show ?case
  proof (cases xs)
    case Nil
    with a show ?thesis by simp
  next
    case (Cons y ys)
    with a Cons.IH [of "Num a"] show ?thesis by simp
  qed
qed

text \<open>
  Claim C10. \<^verbatim>\<open>processWidthInput\<close> never produces a negative width: for every input
  and every unit system the result is \<^verbatim>\<open>undefined\<close> or a number that is at least 0
  (a finite number at least 0, or \<open>Infinity\<close>). The dashes are removed before
  \<^verbatim>\<open>parseFloat\<close> reads a token, and every multiplier is positive.
\<close>

theorem processWidthInput_nonneg:
  "processWidthInput widthInput units = Inr Undefined \<or>
   (\<exists>a. processWidthInput widthInput units = Inr (Num a) \<and> num_nonneg a)"
proof (cases "widthInput = None \<or> widthInput = Some [] \<or> units = None")
  case True
  then show ?thesis by (auto simp: processWidthInput_def)
next
  case False
  then obtain w u where wu: "widthInput = Some w" "w \<noteq> []" "units = Some u" by auto
  let ?n = "normalize_input w"
  show ?thesis
  proof (cases "indexOf ?n 0x27 \<noteq> - 1 \<and> int (length ?n) > indexOf ?n 0x27 + 1")
    case True
    then have "39 \<in> set ?n" by (simp add: indexOf_absent)
    then have "2 \<le> length (split ?n 39)" by (rule split_present)
    then obtain p q qs where "split ?n 39 = p # q # qs"
      by (cases "split ?n 39"; cases "tl (split ?n 39)") auto
    with reduce_from_nonneg [of "Str (p @ [39])" "q # qs" units] True wu show ?thesis
      by (simp add: processWidthInput_def Let_def)
  next
    case False
    with wu parseStringForUnits_nonneg [of ?n units] show ?thesis
      by (auto simp add: processWidthInput_def Let_def)
  qed
qed

subsection \<open>Tokens without a number\<close>

lemma replace_all_absent: "c \<notin> set s \<Longrightarrow> replace_all c r s = s"
  by (induction s) (auto simp: replace_all_def)

lemma strip_dashes:
  "(if indexOf t 0x2D \<noteq> - 1 then replace_all 0x2D [] t else t) = replace_all 0x2D [] t"
  by (simp add: indexOf_absent replace_all_absent)

lemma parseStringForUnits_falsy:
  "\<not> truthy (parseFloat (replace_all 0x2D [] t)) \<Longrightarrow> parseStringForUnits t u = Fin 0"
  unfolding parseStringForUnits_def strip_dashes by (simp add: Let_def)


text \<open>Evaluation of the parser on a concrete input.\<close>

lemmas parse_eval =
  processWidthInput_def normalize_input_def replace_fractions_def replace_all_def
  IMPERIAL_VULGAR_FRACTIONS_def WIDTH_INPUT_CONVERSION_def IMPERIAL_METRIC_MULTIPLIER_def
  reduce_callback_def parseStringForUnits_def parseFloat_def unsigned_literal_def
  exponent_part_def exp_digits_def pow10_def is_whitespace_def is_digit_def digits_value_def
  unit_matches_def pattern_char_matches_def str_def Let_def

text \<open>Evaluation of the formatter on a concrete input.\<close>

lemma floor_rat_numeral_div [simp]: "\<lfloor>numeral a / numeral b :: rat\<rfloor> = numeral a div numeral b"
  by (metis floor_divide_of_int_eq of_int_numeral)

lemma floor_rat_one_div [simp]: "\<lfloor>1 / numeral b :: rat\<rfloor> = 1 div numeral b"
  by (metis floor_divide_of_int_eq of_int_numeral of_int_1)

lemmas format_eval =
  prettifyWidth_def getImperialMeasurementWithVulgarFractions_def stringifyMeasurementValue_def
  vulgar_fraction_def num_minus_def positive_to_string_def significant_digits_def
  decimal_exponent_def small_exponent.simps round_half_up_def nat_digits.simps layout_digits_def
  strip_trailing_zeros_def
  format_decimal_def group_digits.simps pad_left_def pow10_def wbr_def str_def
  IMPERIAL_VULGAR_FRACTIONS_def IMPERIAL_PRECISION_def METRIC_PRECISION_def
  convertImperialMeasurementToMetric_def IMPERIAL_METRIC_MULTIPLIER_def Let_def

text \<open>
  Claim C4. A token whose leading number (read by \<^verbatim>\<open>parseFloat\<close> once the dashes are
  removed) is zero or \<open>NaN\<close> contributes exactly 0; no call of \<^verbatim>\<open>processWidthInput\<close>
  raises an error; and \<^verbatim>\<open>0'7"\<close> parses to 7/12 under the imperial system, the feet
  token contributing 0.
\<close>

theorem parseStringForUnits_zero_token:
  \<open>(\<not> truthy (parseFloat (replace_all 0x2D [] t)) \<longrightarrow> parseStringForUnits t u = Fin 0) \<and>
   (\<exists>v. processWidthInput widthInput units = Inr v) \<and>
   processWidthInput (Some (str ''0'7"'')) (Some SETTINGS_UNITS_IMPERIAL)
     = Inr (Num (Fin (7 / 12)))\<close>
proof (intro conjI impI)
  assume "\<not> truthy (parseFloat (replace_all 0x2D [] t))"
  then show "parseStringForUnits t u = Fin 0" by (rule parseStringForUnits_falsy)
next
  show "\<exists>v. processWidthInput widthInput units = Inr v"
  proof (cases "widthInput = None \<or> widthInput = Some [] \<or> units = None")
    case True
    then show ?thesis by (auto simp: processWidthInput_def)
  next
    case False
    then obtain w u' where "widthInput = Some w" "w \<noteq> []" "units = Some u'" by auto
    with processWidthInput_num [of w u'] show ?thesis by auto
  qed
next
  show \<open>processWidthInput (Some (str ''0'7"'')) (Some SETTINGS_UNITS_IMPERIAL)
     = Inr (Num (Fin (7 / 12)))\<close>
    by (simp add: parse_eval)
qed

theorem parseStringForUnits_zero_token_witness:
  \<open>\<not> truthy (parseFloat (replace_all 0x2D [] (str ''0''))) \<and>
   parseStringForUnits (str ''0'') (Some SETTINGS_UNITS_METRIC) = Fin 0 \<and>
   \<not> truthy (parseFloat (replace_all 0x2D [] (str ''-x''))) \<and>
   parseStringForUnits (str ''-x'') (Some SETTINGS_UNITS_IMPERIAL) = Fin 0\<close>
proof -
  have a: \<open>\<not> truthy (parseFloat (replace_all 0x2D [] (str ''0'')))\<close>
    by (simp add: parse_eval)
  have b: \<open>\<not> truthy (parseFloat (replace_all 0x2D [] (str ''-x'')))\<close>
    by (simp add: parse_eval)
  from a b
    parseStringForUnits_zero_token [of "str ''0''" "Some SETTINGS_UNITS_METRIC" None None]
    parseStringForUnits_zero_token [of "str ''-x''" "Some SETTINGS_UNITS_IMPERIAL" None None]
  show ?thesis by blast
qed

subsection \<open>Feet and inches\<close>

lemma split_absent: "c \<notin> set s \<Longrightarrow> split s c = [s]"
  by (induction s) auto

lemma split_once:
  "c \<notin> set a \<Longrightarrow> c \<notin> set b \<Longrightarrow> split (a @ c # b) c = [a, b]"
  by (induction a) (auto simp: split_absent)

lemma indexOf_first: "c \<notin> set a \<Longrightarrow> indexOf (a @ c # b) c = int (length a)"
proof (induction a)
  case Nil
  show ?case by simp
next
  case (Cons x a)
  then show ?case by (auto simp: Let_def)
qed

text \<open>
  Claim C2, amended. When the normalised input has exactly one feet marker \<^verbatim>\<open>'\<close> and
  text after it, \<^verbatim>\<open>processWidthInput\<close> splits at the marker, parses the feet part (with
  the marker put back, and without units) and the inches part (with \<^verbatim>\<open>"\<close> appended when
  it has none) each with \<^verbatim>\<open>parseStringForUnits\<close>, and returns the sum; \<^verbatim>\<open>5'7"\<close> parses
  to 5 + 7/12 under the imperial system.
\<close>

theorem processWidthInput_feet_inches:
  assumes "w \<noteq> []"
    and "normalize_input w = feet @ [0x27] @ inches"
    and "0x27 \<notin> set feet" and "0x27 \<notin> set inches" and "inches \<noteq> []"
  shows \<open>processWidthInput (Some w) (Some u)
      = Inr (Num (num_plus
          (parseStringForUnits (feet @ [0x27]) None)
          (parseStringForUnits (if indexOf inches 0x22 = - 1 then inches @ [0x22] else inches)
             (Some u)))) \<and>
    processWidthInput (Some (str ''5'7"'')) (Some SETTINGS_UNITS_IMPERIAL)
      = Inr (Num (Fin (5 + 7 / 12)))\<close>
proof
  have n: "normalize_input w = feet @ 39 # inches" using assms(2) by simp
  have i: "indexOf (normalize_input w) 39 = int (length feet)"
    unfolding n using assms(3) by (rule indexOf_first)
  have s: "split (normalize_input w) 39 = [feet, inches]"
    unfolding n using assms(3,4) by (rule split_once)
  have l: "int (length (normalize_input w)) > int (length feet) + 1"
    using assms(5) by (simp add: n)
  show "processWidthInput (Some w) (Some u)
      = Inr (Num (num_plus
          (parseStringForUnits (feet @ [0x27]) None)
          (parseStringForUnits (if indexOf inches 0x22 = - 1 then inches @ [0x22] else inches)
             (Some u))))"
    using assms(1) l by (simp add: processWidthInput_def Let_def i s reduce_callback_def)
next
  show \<open>processWidthInput (Some (str ''5'7"'')) (Some SETTINGS_UNITS_IMPERIAL)
      = Inr (Num (Fin (5 + 7 / 12)))\<close>
    by (simp add: parse_eval)
qed

theorem processWidthInput_feet_inches_witness:
  \<open>processWidthInput (Some (str ''5' 7'')) (Some SETTINGS_UNITS_METRIC)
     = Inr (Num (num_plus (parseStringForUnits (str ''5'' @ [0x27]) None)
                          (parseStringForUnits (str ''7'' @ [0x22]) (Some SETTINGS_UNITS_METRIC)))) \<and>
   processWidthInput (Some (str ''5' 7'')) (Some SETTINGS_UNITS_METRIC) = Inr (Num (Fin (5 + 7 / 12)))\<close>
proof -
  have 1: \<open>str ''5' 7'' \<noteq> []\<close> by (simp add: str_def)
  have 2: \<open>normalize_input (str ''5' 7'') = str ''5'' @ [0x27] @ str ''7''\<close>
    by (simp add: parse_eval)
  have 3: \<open>0x27 \<notin> set (str ''5'')\<close> \<open>0x27 \<notin> set (str ''7'')\<close> \<open>str ''7'' \<noteq> []\<close>
    by (simp_all add: str_def)
  have 4: \<open>(if indexOf (str ''7'') 0x22 = - 1 then str ''7'' @ [0x22] else str ''7'') = str ''7'' @ [0x22]\<close>
    by (simp add: str_def)
  have 5: \<open>num_plus (parseStringForUnits (str ''5'' @ [0x27]) None)
                          (parseStringForUnits (str ''7'' @ [0x22]) (Some SETTINGS_UNITS_METRIC)) = Fin (5 + 7 / 12)\<close>
    by (simp add: parse_eval)
  from processWidthInput_feet_inches [OF 1 2 3, of SETTINGS_UNITS_METRIC]
  show ?thesis unfolding 4 5 by simp
qed

text \<open>
  Claim C2 as stated covers every input with a feet marker before its last character.
  With a second marker, \<^verbatim>\<open>split\<close> gives three parts and \<^verbatim>\<open>reduce\<close> calls the
  callback twice, the second time on the printed sum of the first two parts: \<^verbatim>\<open>1'2'3\<close>
  gives 1.4166666666666667, which is not the sum of the feet part and of an inches part,
  whether that is the text after the first marker, the second part or the third.
\<close>

theorem processWidthInput_feet_inches_counterexample:
  \<open>processWidthInput (Some (str ''1'2'3'')) (Some SETTINGS_UNITS_IMPERIAL)
     = Inr (Num (Fin (14166666666666667 / 10000000000000000))) \<and>
   processWidthInput (Some (str ''1'2'3'')) (Some SETTINGS_UNITS_IMPERIAL)
     \<noteq> Inr (Num (num_plus (parseStringForUnits (str ''1'' @ [0x27]) None)
           (parseStringForUnits (str ''2'3'' @ [0x22]) (Some SETTINGS_UNITS_IMPERIAL)))) \<and>
   processWidthInput (Some (str ''1'2'3'')) (Some SETTINGS_UNITS_IMPERIAL)
     \<noteq> Inr (Num (num_plus (parseStringForUnits (str ''1'' @ [0x27]) None)
           (parseStringForUnits (str ''2'' @ [0x22]) (Some SETTINGS_UNITS_IMPERIAL)))) \<and>
   processWidthInput (Some (str ''1'2'3'')) (Some SETTINGS_UNITS_IMPERIAL)
     \<noteq> Inr (Num (num_plus (parseStringForUnits (str ''1'' @ [0x27]) None)
           (parseStringForUnits (str ''3'' @ [0x22]) (Some SETTINGS_UNITS_IMPERIAL))))\<close>
proof -
  have a: \<open>normalize_input (str ''1'2'3'') = str ''1'2'3''\<close>
    by (simp add: parse_eval)
  have b: \<open>parseStringForUnits (str ''1'' @ [0x27]) None = Fin 1\<close>
    \<open>parseStringForUnits (str ''2'' @ [0x22]) (Some SETTINGS_UNITS_IMPERIAL) = Fin (1 / 6)\<close>
    \<open>parseStringForUnits (str ''3'' @ [0x22]) (Some SETTINGS_UNITS_IMPERIAL) = Fin (1 / 4)\<close>
    \<open>parseStringForUnits (str ''2'3'' @ [0x22]) (Some SETTINGS_UNITS_IMPERIAL) = Fin (1 / 6)\<close>
    by (simp_all add: parse_eval)
  have c: \<open>number_to_string (Fin (7 / 6)) = str ''1.1666666666666667''\<close>
    by (simp add: format_eval)
  have d: \<open>parseStringForUnits (str ''1.1666666666666667'') None
      = Fin (11666666666666667 / 10000000000000000)\<close>
    by (simp add: parse_eval)
  have \<open>processWidthInput (Some (str ''1'2'3'')) (Some SETTINGS_UNITS_IMPERIAL)
     = Inr (Num (Fin (14166666666666667 / 10000000000000000)))\<close>
    using a b c d by (simp add: processWidthInput_def Let_def str_def reduce_callback_def)
  then show ?thesis unfolding b by simp
qed

subsection \<open>Metres\<close>

lemma parseStringForUnits_stripped:
  "parseStringForUnits w u =
     (let t = replace_all 0x2D [] w; width = parseFloat t
      in if truthy width then
           num_times width
             (case find (\<lambda>e. unit_matches (text_of e) t) WIDTH_INPUT_CONVERSION of
                Some e \<Rightarrow> multiplier e
              | None \<Rightarrow> if u = Some SETTINGS_UNITS_METRIC then 1 / IMPERIAL_METRIC_MULTIPLIER else 1)
         else Fin 0)"
  unfolding parseStringForUnits_def strip_dashes by (simp add: Let_def)

text \<open>
  Claim C5. Under the metric system, an input that is one token (no feet marker) whose
  number \<^verbatim>\<open>parseFloat\<close> reads as \<open>x\<close>, and that ends in a digit or point followed by
  \<^verbatim>\<open>m\<close> or matches no unit of the table at all, parses to \<open>x * (1 / (30 / 100))\<close>;
  \<^verbatim>\<open>1m\<close> parses to 1 / (30 / 100).
\<close>

theorem processWidthInput_metric:
  assumes "w \<noteq> []"
    and "t = replace_all 0x2D [] (normalize_input w)"
    and "0x27 \<notin> set t"
    and "parseFloat t = Fin x"
    and "unit_matches (str ''m'') t \<or>
         (\<forall>e \<in> set WIDTH_INPUT_CONVERSION. \<not> unit_matches (text_of e) t)"
  shows \<open>processWidthInput (Some w) (Some SETTINGS_UNITS_METRIC)
            = Inr (Num (Fin (x * (1 / (30 / 100))))) \<and>
         processWidthInput (Some (str ''1m'')) (Some SETTINGS_UNITS_METRIC)
            = Inr (Num (Fin (1 / (30 / 100))))\<close>
proof
  let ?n = "normalize_input w"
  have "0x27 \<notin> set ?n" using assms(2,3) by (simp add: replace_all_delete)
  then have single: "processWidthInput (Some w) (Some SETTINGS_UNITS_METRIC)
      = Inr (Num (parseStringForUnits ?n (Some SETTINGS_UNITS_METRIC)))"
    using assms(1) by (simp add: processWidthInput_def indexOf_absent)
  have m: "(case find (\<lambda>e. unit_matches (text_of e) t) WIDTH_INPUT_CONVERSION of
              Some e \<Rightarrow> multiplier e
            | None \<Rightarrow> 1 / IMPERIAL_METRIC_MULTIPLIER) = 1 / (30 / 100)"
  proof (cases "unit_matches (str ''m'') t")
    case True
    then show ?thesis
      by (simp add: WIDTH_INPUT_CONVERSION_def IMPERIAL_METRIC_MULTIPLIER_def)
  next
    case False
    with assms(5) have "find (\<lambda>e. unit_matches (text_of e) t) WIDTH_INPUT_CONVERSION = None"
      by (simp add: find_None_iff)
    then show ?thesis by (simp add: IMPERIAL_METRIC_MULTIPLIER_def)
  qed
  have "parseStringForUnits ?n (Some SETTINGS_UNITS_METRIC) = Fin (x * (1 / (30 / 100)))"
    unfolding parseStringForUnits_stripped assms(2) [symmetric]
    using assms(4) m by (simp add: Let_def)
  with single show "processWidthInput (Some w) (Some SETTINGS_UNITS_METRIC)
            = Inr (Num (Fin (x * (1 / (30 / 100)))))" by simp
next
  show \<open>processWidthInput (Some (str ''1m'')) (Some SETTINGS_UNITS_METRIC)
            = Inr (Num (Fin (1 / (30 / 100))))\<close>
    by (simp add: parse_eval)
qed


theorem processWidthInput_metric_witness:
  \<open>processWidthInput (Some (str ''1,5 m'')) (Some SETTINGS_UNITS_METRIC) = Inr (Num (Fin (3 / 2 * (1 / (30 / 100))))) \<and>
   processWidthInput (Some (str ''2'')) (Some SETTINGS_UNITS_METRIC) = Inr (Num (Fin (2 * (1 / (30 / 100)))))\<close>
proof -
  have a: \<open>str ''1,5 m'' \<noteq> []\<close> \<open>str ''1.5m'' = replace_all 0x2D [] (normalize_input (str ''1,5 m''))\<close>
    \<open>0x27 \<notin> set (str ''1.5m'')\<close> \<open>parseFloat (str ''1.5m'') = Fin (3 / 2)\<close>
    by (simp_all add: parse_eval)
  have a5: \<open>unit_matches (str ''m'') (str ''1.5m'') \<or>
         (\<forall>e \<in> set WIDTH_INPUT_CONVERSION. \<not> unit_matches (text_of e) (str ''1.5m''))\<close>
    by (simp add: parse_eval)
  have b: \<open>str ''2'' \<noteq> []\<close> \<open>str ''2'' = replace_all 0x2D [] (normalize_input (str ''2''))\<close>
    \<open>0x27 \<notin> set (str ''2'')\<close> \<open>parseFloat (str ''2'') = Fin 2\<close>
    by (simp_all add: parse_eval)
  have b5: \<open>unit_matches (str ''m'') (str ''2'') \<or>
         (\<forall>e \<in> set WIDTH_INPUT_CONVERSION. \<not> unit_matches (text_of e) (str ''2''))\<close>
    by (simp add: parse_eval)
  from processWidthInput_metric [OF a a5] processWidthInput_metric [OF b b5]
  show ?thesis by simp
qed

subsection \<open>Vulgar fractions in the input\<close>

text \<open>
  Claim C6, evaluated. The loop of lines 50 to 54 replaces the first occurrence of each
  glyph only: the pattern has no \<^verbatim>\<open>g\<close> flag, unlike the two replacements before it. In
  \<^verbatim>\<open>1\<onehalf>'3\<onehalf>"\<close> the second glyph stays, the inches token does not end in a digit and
  \<^verbatim>\<open>"\<close>, and its 3 is read as feet: the result is 4.5 where the same width typed with
  decimals gives 1.5 + 3.5/12. With one glyph, as in \<^verbatim>\<open>5'\<onehalf>"\<close>, the substitution comes
  before the split and the result is 5 + (1/2)(1/12).
\<close>

theorem processWidthInput_repeated_glyph:
  \<open>normalize_input [0x31, 0xBD, 0x27, 0x33, 0xBD, 0x22] = str ''1.5'3'' @ [0xBD, 0x22] \<and>
   processWidthInput (Some [0x31, 0xBD, 0x27, 0x33, 0xBD, 0x22]) (Some SETTINGS_UNITS_IMPERIAL)
     = Inr (Num (Fin (9 / 2))) \<and>
   processWidthInput (Some (str ''1.5'3.5"'')) (Some SETTINGS_UNITS_IMPERIAL)
     = Inr (Num (Fin (3 / 2 + 7 / 2 * (1 / 12)))) \<and>
   processWidthInput (Some [0x35, 0x27, 0xBD, 0x22]) (Some SETTINGS_UNITS_IMPERIAL)
     = Inr (Num (Fin (5 + 1 / 2 * (1 / 12))))\<close>
  by (simp add: parse_eval)


subsection \<open>Vulgar fractions in the output\<close>

lemma vulgar_fraction_lookup:
  "(key, glyph) \<in> set IMPERIAL_VULGAR_FRACTIONS \<Longrightarrow> vulgar_fraction key = Some glyph"
  unfolding vulgar_fraction_def
  by (rule map_of_is_SomeI) (simp_all add: IMPERIAL_VULGAR_FRACTIONS_def str_def)

text \<open>
  Claim C7. Formatting under the imperial system: when the decimal string of the
  remainder \<open>v - floor v\<close>, without its leading digit, is a key of the vulgar fraction
  table, \<^verbatim>\<open>prettifyWidth\<close> gives the formatted integer part (nothing when the integer
  part is zero), the glyph of the key and the feet marker, the break marker coming
  between the two when markup is asked for; \<^verbatim>\<open>prettifyWidth\<close> of 0.5 is the glyph of one
  half followed by the feet marker.
\<close>

theorem prettifyWidth_vulgar_fraction:
  assumes "(key, glyph) \<in> set IMPERIAL_VULGAR_FRACTIONS"
    and "drop 1 (number_to_string (num_minus v (math_floor v))) = key"
  shows "prettifyWidth v (Some SETTINGS_UNITS_IMPERIAL) markup
           = (if truthy (math_floor v) then intl_format IMPERIAL_PRECISION (math_floor v) else [])
             @ [glyph] @ (if markup then wbr else []) @ [0x27] \<and>
         prettifyWidth (Fin (1 / 2)) (Some SETTINGS_UNITS_IMPERIAL) False = [0xBD, 0x27]"
proof
  from assms have "vulgar_fraction (drop 1 (number_to_string (num_minus v (math_floor v)))) = Some glyph"
    by (simp add: vulgar_fraction_lookup)
  then show "prettifyWidth v (Some SETTINGS_UNITS_IMPERIAL) markup
           = (if truthy (math_floor v) then intl_format IMPERIAL_PRECISION (math_floor v) else [])
             @ [glyph] @ (if markup then wbr else []) @ [0x27]"
    by (simp add: prettifyWidth_def getImperialMeasurementWithVulgarFractions_def
        stringifyMeasurementValue_def Let_def)
next
  show "prettifyWidth (Fin (1 / 2)) (Some SETTINGS_UNITS_IMPERIAL) False = [0xBD, 0x27]"
    by (simp add: format_eval)
qed

theorem prettifyWidth_vulgar_fraction_witness:
  \<open>(str ''.75'', 0xBE) \<in> set IMPERIAL_VULGAR_FRACTIONS \<and>
   drop 1 (number_to_string (num_minus (Fin (1234 + 3 / 4)) (math_floor (Fin (1234 + 3 / 4))))) = str ''.75'' \<and>
   prettifyWidth (Fin (1234 + 3 / 4)) (Some SETTINGS_UNITS_IMPERIAL) False = str ''1,234'' @ [0xBE, 0x27] \<and>
   prettifyWidth (Fin (1234 + 3 / 4)) (Some SETTINGS_UNITS_IMPERIAL) True
     = str ''1,234'' @ [0xBE] @ str ''<wbr>'' @ [0x27]\<close>
proof -
  have 1: \<open>(str ''.75'', 0xBE) \<in> set IMPERIAL_VULGAR_FRACTIONS\<close>
    by (simp add: IMPERIAL_VULGAR_FRACTIONS_def)
  have 2: \<open>drop 1 (number_to_string (num_minus (Fin (1234 + 3 / 4)) (math_floor (Fin (1234 + 3 / 4))))) = str ''.75''\<close>
    by (simp add: format_eval)
  have 3: \<open>(if truthy (math_floor (Fin (1234 + 3 / 4)))
        then intl_format IMPERIAL_PRECISION (math_floor (Fin (1234 + 3 / 4))) else []) = str ''1,234''\<close>
    by (simp add: format_eval)
  from prettifyWidth_vulgar_fraction [OF 1 2, of False]
    prettifyWidth_vulgar_fraction [OF 1 2, of True] 1 2
  show ?thesis unfolding 3 by (simp add: wbr_def)
qed

text \<open>The remainders whose decimal strings are keys of the table are the eighths.\<close>

lemma number_to_string_eighths:
  \<open>number_to_string (Fin (1 / 8)) = str ''0.125''\<close>
  \<open>number_to_string (Fin (1 / 4)) = str ''0.25''\<close>
  \<open>number_to_string (Fin (3 / 8)) = str ''0.375''\<close>
  \<open>number_to_string (Fin (1 / 2)) = str ''0.5''\<close>
  \<open>number_to_string (Fin (5 / 8)) = str ''0.625''\<close>
  \<open>number_to_string (Fin (3 / 4)) = str ''0.75''\<close>
  \<open>number_to_string (Fin (7 / 8)) = str ''0.875''\<close>
  by (simp_all add: format_eval)

subsection \<open>The break marker\<close>

lemma nat_digits_digit: "c \<in> set (nat_digits n) \<Longrightarrow> is_digit c"
proof (induction n rule: nat_digits.induct)
  case (1 n)
  show ?case
  proof (cases "n < 10")
    case True
    with "1.prems" show ?thesis by (simp add: nat_digits.simps [of n] is_digit_def)
  next
    case False
    have "n mod 10 < 10" by simp
    then have "is_digit (48 + n mod 10)" unfolding is_digit_def by linarith
    with False "1.prems" "1.IH" show ?thesis by (auto simp: nat_digits.simps [of n])
  qed
qed

lemma group_digits_set: "set (group_digits ds) \<subseteq> insert 0x2C (set ds)"
proof (induction ds rule: group_digits.induct)
  case (1 ds)
  show ?case
  proof (cases "length ds \<le> 3")
    case True
    then show ?thesis by (auto simp: group_digits.simps [of ds])
  next
    case False
    have "set (take (length ds - 3) ds) \<subseteq> set ds" "set (drop (length ds - 3) ds) \<subseteq> set ds"
      by (rule set_take_subset, rule set_drop_subset)
    with False "1.IH" show ?thesis by (auto simp: group_digits.simps [of ds])
  qed
qed

lemma strip_trailing_zeros_set: "set (strip_trailing_zeros ds) \<subseteq> set ds"
  using set_dropWhileD [of _ "\<lambda>c. c = 48" "rev ds"] by (auto simp: strip_trailing_zeros_def)

lemma pad_left_set: "set (pad_left p ds) \<subseteq> insert 48 (set ds)"
  by (auto simp: pad_left_def)

lemma format_decimal_plain: "0x3C \<notin> set (format_decimal p x)"
proof -
  have d: "0x3C \<notin> set (nat_digits n)" for n
    using nat_digits_digit [of "0x3C" n] by (auto simp: is_digit_def)
  have "0x3C \<notin> set (group_digits (nat_digits n))" for n
    using group_digits_set [of "nat_digits n"] d [of n] by auto
  moreover have "0x3C \<notin> set (strip_trailing_zeros (pad_left p (nat_digits n)))" for n
    using strip_trailing_zeros_set [of "pad_left p (nat_digits n)"]
      pad_left_set [of p "nat_digits n"] d [of n] by auto
  ultimately show ?thesis by (simp add: format_decimal_def Let_def)
qed

lemma intl_format_plain: "0x3C \<notin> set (intl_format p v)"
  by (cases v) (simp_all add: format_decimal_plain str_def)

lemma stringifyMeasurementValue_plain: "0x3C \<notin> set (stringifyMeasurementValue v u)"
  by (simp add: stringifyMeasurementValue_def intl_format_plain str_def)

lemma vulgar_fraction_plain: "vulgar_fraction k = Some g \<Longrightarrow> g \<noteq> 0x3C"
  by (auto simp: vulgar_fraction_def IMPERIAL_VULGAR_FRACTIONS_def split: if_splits)

lemma getImperialMeasurementWithVulgarFractions_plain:
  "0x3C \<notin> set (getImperialMeasurementWithVulgarFractions v)"
  using stringifyMeasurementValue_plain vulgar_fraction_plain
  by (auto simp: getImperialMeasurementWithVulgarFractions_def Let_def split: option.splits)

lemma count_occurrences_skip:
  "n \<noteq> [] \<Longrightarrow> hd n \<notin> set s \<Longrightarrow> count_occurrences n (s @ t) = count_occurrences n t"
proof (induction s)
  case Nil
  show ?case by simp
next
  case (Cons x s)
  from Cons.prems obtain y ys where n: "n = y # ys" "x \<noteq> y" by (cases n) auto
  then have "take (length n) (x # s @ t) \<noteq> n" by auto
  with Cons show ?case by simp
qed

text \<open>
  Claim C9, as the code has it. With markup, the output is the number text, the marker
  \<^verbatim>\<open><wbr>\<close>, then the feet marker under the imperial system, or one hair space (U+200A)
  and the suffix (a hair space and \<^verbatim>\<open>m\<close>) under the metric system (or with no unit
  system); without markup it is the number text and the suffix. The number text never contains the marker, so the marker
  occurs exactly once with markup and not at all without.
\<close>

theorem prettifyWidth_markup:
  \<open>prettifyWidth v u True
     = number_text v u @ wbr @ (if u = Some SETTINGS_UNITS_IMPERIAL then [] else [0x200A])
       @ unit_suffix u \<and>
   prettifyWidth v u False = number_text v u @ unit_suffix u \<and>
   count_occurrences wbr (number_text v u) = 0 \<and>
   count_occurrences wbr (prettifyWidth v u True) = 1 \<and>
   count_occurrences wbr (prettifyWidth v u False) = 0\<close>
proof -
  have p: "hd wbr \<notin> set (number_text v u)" "wbr \<noteq> []"
    using getImperialMeasurementWithVulgarFractions_plain [of v]
      stringifyMeasurementValue_plain [of v "Some SETTINGS_UNITS_METRIC"]
    by (simp_all add: number_text_def wbr_def str_def)
  have t: "prettifyWidth v u True
     = number_text v u @ wbr @ (if u = Some SETTINGS_UNITS_IMPERIAL then [] else [0x200A])
       @ unit_suffix u"
    by (simp add: prettifyWidth_def number_text_def unit_suffix_def)
  have f: "prettifyWidth v u False = number_text v u @ unit_suffix u"
    by (simp add: prettifyWidth_def number_text_def unit_suffix_def)
  have "count_occurrences wbr (number_text v u @ []) = count_occurrences wbr []"
    using p by (intro count_occurrences_skip) simp_all
  then have c0: "count_occurrences wbr (number_text v u) = 0" by simp
  have "count_occurrences wbr (wbr @ (if u = Some SETTINGS_UNITS_IMPERIAL then [] else [0x200A])
       @ unit_suffix u) = 1"
    by (simp add: wbr_def str_def unit_suffix_def)
  then have c1: "count_occurrences wbr (prettifyWidth v u True) = 1"
    unfolding t using p by (simp add: count_occurrences_skip)
  have "count_occurrences wbr (unit_suffix u) = 0"
    by (simp add: wbr_def str_def unit_suffix_def)
  then have c2: "count_occurrences wbr (prettifyWidth v u False) = 0"
    unfolding f using p by (simp add: count_occurrences_skip)
  from t f c0 c1 c2 show ?thesis by blast
qed

text \<open>
  Claim C9 as stated fails under the metric system: the marker is not immediately
  before the suffix, since line 109 appends the marker and a hair space before line 112
  appends the suffix. For the width 1 the output is \<^verbatim>\<open>0.3<wbr>\<close>, two hair spaces and
  \<^verbatim>\<open>m\<close>.
\<close>

theorem prettifyWidth_markup_metric_counterexample:
  "\<not> (\<exists>body. prettifyWidth (Fin 1) (Some SETTINGS_UNITS_METRIC) True
          = body @ wbr @ unit_suffix (Some SETTINGS_UNITS_METRIC))"
proof
  assume "\<exists>body. prettifyWidth (Fin 1) (Some SETTINGS_UNITS_METRIC) True
          = body @ wbr @ unit_suffix (Some SETTINGS_UNITS_METRIC)"
  then obtain body where b: "prettifyWidth (Fin 1) (Some SETTINGS_UNITS_METRIC) True
          = body @ wbr @ unit_suffix (Some SETTINGS_UNITS_METRIC)" ..
  have e: \<open>prettifyWidth (Fin 1) (Some SETTINGS_UNITS_METRIC) True
      = str ''0.3<wbr>'' @ [0x200A, 0x200A, 0x6D]\<close>
    by (simp add: format_eval)
  from b have "length (prettifyWidth (Fin 1) (Some SETTINGS_UNITS_METRIC) True)
     = length body + length (wbr @ unit_suffix (Some SETTINGS_UNITS_METRIC))" by simp
  then have l: "length body = 4" by (simp add: e wbr_def unit_suffix_def str_def)
  from b have "drop (length body) (prettifyWidth (Fin 1) (Some SETTINGS_UNITS_METRIC) True)
     = wbr @ unit_suffix (Some SETTINGS_UNITS_METRIC)" by simp
  then show False unfolding l e by (simp add: wbr_def unit_suffix_def str_def)
qed


section \<open>The round trip through the imperial display string\<close>

text \<open>
  Formatting a width under the imperial system and parsing the text back. The text is
  digits, possibly a point and fraction digits or a glyph, and the feet marker; the
  parser reads it as one token with the multiplier of the feet marker.
\<close>

subsection \<open>Digit strings\<close>

lemma digits_value_snoc: "digits_value (ds @ [c]) = 10 * digits_value ds + (c - 48)"
  by (simp add: digits_value_def)

lemma digits_value_Nil: "digits_value [] = 0"
  by (simp add: digits_value_def)

lemma digits_value_append:
  "digits_value (a @ b) = digits_value a * 10 ^ length b + digits_value b"
proof (induction b rule: rev_induct)
  case Nil
  show ?case by (simp add: digits_value_Nil)
next
  case (snoc c b)
  have "digits_value (a @ b @ [c]) = 10 * digits_value (a @ b) + (c - 48)"
    using digits_value_snoc [of "a @ b" c] by simp
  with snoc show ?case by (simp add: digits_value_snoc algebra_simps)
qed

lemma digits_value_zeros: "digits_value (replicate j 48) = 0"
  by (induction j) (simp_all add: digits_value_def)

lemma digits_value_nat_digits: "digits_value (nat_digits n) = n"
proof (induction n rule: nat_digits.induct)
  case (1 n)
  show ?case
  proof (cases "n < 10")
    case True
    then show ?thesis by (simp add: nat_digits.simps [of n] digits_value_def)
  next
    case False
    with "1.IH" show ?thesis by (simp add: nat_digits.simps [of n] digits_value_snoc)
  qed
qed

lemma nat_digits_not_Nil: "nat_digits n \<noteq> []"
  by (simp add: nat_digits.simps [of n])

lemma length_nat_digits_le: "0 < L \<Longrightarrow> n < 10 ^ L \<Longrightarrow> length (nat_digits n) \<le> L"
proof (induction L arbitrary: n)
  case 0
  then show ?case by simp
next
  case (Suc L)
  show ?case
  proof (cases "n < 10")
    case True
    then show ?thesis by (simp add: nat_digits.simps [of n])
  next
    case False
    with Suc.prems have "0 < L" by (cases L) auto
    moreover from Suc.prems have "n div 10 < 10 ^ L" by (simp add: less_mult_imp_div_less mult.commute)
    ultimately have "length (nat_digits (n div 10)) \<le> L" by (rule Suc.IH)
    with False show ?thesis by (simp add: nat_digits.simps [of n])
  qed
qed

lemma length_nat_digits_gt: "10 ^ L \<le> n \<Longrightarrow> L < length (nat_digits n)"
proof (induction L arbitrary: n)
  case 0
  show ?case using nat_digits_not_Nil [of n] by simp
next
  case (Suc L)
  then have "10 ^ L \<le> n div 10" by (simp add: less_eq_div_iff_mult_less_eq mult.commute)
  then have "L < length (nat_digits (n div 10))" by (rule Suc.IH)
  moreover have "(10::nat) \<le> 10 ^ Suc L" by (rule self_le_power) simp_all
  with Suc.prems have "\<not> n < 10" by linarith
  ultimately show ?case by (simp add: nat_digits.simps [of n])
qed

lemma strip_trailing_zeros_decomp:
  "ds = strip_trailing_zeros ds @ replicate (length ds - length (strip_trailing_zeros ds)) 48"
proof -
  let ?z = "takeWhile (\<lambda>c. c = 48) (rev ds)"
  have d: "ds = strip_trailing_zeros ds @ rev ?z"
    using arg_cong [OF takeWhile_dropWhile_id [of "\<lambda>c. c = 48" "rev ds"], of rev]
    by (simp add: strip_trailing_zeros_def del: takeWhile_dropWhile_id)
  have "\<forall>c \<in> set (rev ?z). c = 48" by (auto dest: set_takeWhileD)
  then have "rev ?z = replicate (length (rev ?z)) 48"
    by (rule replicate_length_same [symmetric])
  moreover have "length (rev ?z) = length ds - length (strip_trailing_zeros ds)"
    using arg_cong [OF d, of length] by simp
  ultimately show ?thesis using d by simp
qed

lemma strip_trailing_zeros_value:
  "(of_nat (digits_value (strip_trailing_zeros ds)) :: rat) / 10 ^ length (strip_trailing_zeros ds)
     = of_nat (digits_value ds) / 10 ^ length ds"
proof -
  define s where "s = strip_trailing_zeros ds"
  define j where "j = length ds - length s"
  have d: "ds = s @ replicate j 48" unfolding s_def j_def by (rule strip_trailing_zeros_decomp)
  have "digits_value ds = digits_value s * 10 ^ j"
    by (subst d) (simp add: digits_value_append digits_value_zeros)
  moreover have "length ds = length s + j" by (subst d) simp
  ultimately show ?thesis unfolding s_def [symmetric] by (simp add: power_add)
qed


subsection \<open>Parsing a plain decimal followed by the feet marker\<close>

lemma unit_matches_Nil: "unit_matches [] B \<longleftrightarrow> B \<noteq> [] \<and> (is_digit (last B) \<or> last B = 0x2E)"
proof (cases B rule: rev_cases)
  case Nil
  then show ?thesis by (simp add: unit_matches_def)
next
  case (snoc B0 d)
  then show ?thesis by (simp add: unit_matches_def)
qed

lemma unit_matches_snoc:
  "unit_matches (ps @ [p]) (B @ [c]) \<longleftrightarrow> pattern_char_matches p c \<and> unit_matches ps B"
proof (cases "length ps < length B")
  case False
  then show ?thesis by (simp add: unit_matches_def)
next
  case True
  define tailB where "tailB = drop (length B - length ps - 1) B"
  have l: "length tailB = length ps + 1" using True by (simp add: tailB_def)
  then obtain h r where hr: "tailB = h # r" by (cases tailB) auto
  with l have lr: "length r = length ps" by simp
  have "drop (length (B @ [c]) - length (ps @ [p]) - 1) (B @ [c]) = tailB @ [c]"
    using True by (simp add: tailB_def)
  then have a: "unit_matches (ps @ [p]) (B @ [c]) \<longleftrightarrow>
      (is_digit h \<or> h = 0x2E) \<and> list_all2 pattern_char_matches (ps @ [p]) (r @ [c])"
    using True unfolding unit_matches_def by (simp add: hr Let_def)
  have b: "list_all2 pattern_char_matches (ps @ [p]) (r @ [c]) \<longleftrightarrow>
      list_all2 pattern_char_matches ps r \<and> pattern_char_matches p c"
    using lr by (simp add: list_all2_append)
  have c: "unit_matches ps B \<longleftrightarrow> (is_digit h \<or> h = 0x2E) \<and> list_all2 pattern_char_matches ps r"
    using True unfolding unit_matches_def tailB_def [symmetric] by (simp add: hr Let_def)
  show ?thesis unfolding a b c by auto
qed

lemma find_feet_marker:
  assumes "is_digit d"
  shows "find (\<lambda>e. unit_matches (text_of e) (B @ [d, 0x27])) WIDTH_INPUT_CONVERSION
           = Some \<lparr>text_of = [0x27], multiplier = 1\<rparr>"
proof -
  let ?w = "B @ [d, 0x27]"
  have w: "?w = (B @ [d]) @ [0x27]" by simp
  have d: "d \<noteq> 110" using assms by (auto simp: is_digit_def)
  have 1: "\<not> unit_matches [109] ?w"
    unfolding w using unit_matches_snoc [of "[]" 109 "B @ [d]" 39]
    by (simp add: pattern_char_matches_def)
  have 2: "\<not> unit_matches [99, 109] ?w"
    unfolding w using unit_matches_snoc [of "[99]" 109 "B @ [d]" 39]
    by (simp add: pattern_char_matches_def)
  have 3: "\<not> unit_matches [34] ?w"
    unfolding w using unit_matches_snoc [of "[]" 34 "B @ [d]" 39]
    by (simp add: pattern_char_matches_def)
  have 4: "\<not> unit_matches [105, 110] ?w"
    unfolding w using unit_matches_snoc [of "[105]" 110 "B @ [d]" 39]
    by (simp add: pattern_char_matches_def)
  have 5: "\<not> unit_matches [105, 110, 46] ?w"
    unfolding w using unit_matches_snoc [of "[105, 110]" 46 "B @ [d]" 39]
      unit_matches_snoc [of "[105]" 110 B d] d
    by (simp add: pattern_char_matches_def)
  have 6: "\<not> unit_matches [105, 110, 99, 104] ?w"
    unfolding w using unit_matches_snoc [of "[105, 110, 99]" 104 "B @ [d]" 39]
    by (simp add: pattern_char_matches_def)
  have 7: "\<not> unit_matches [105, 110, 99, 104, 101, 115] ?w"
    unfolding w using unit_matches_snoc [of "[105, 110, 99, 104, 101]" 115 "B @ [d]" 39]
    by (simp add: pattern_char_matches_def)
  have 8: "unit_matches [39] ?w"
    unfolding w using unit_matches_snoc [of "[]" 39 "B @ [d]" 39] assms
    by (simp add: pattern_char_matches_def unit_matches_Nil)
  show ?thesis
    by (simp add: WIDTH_INPUT_CONVERSION_def str_def 1 2 3 4 5 6 7 8)
qed

lemma take8_not_Infinity: "t \<noteq> [] \<Longrightarrow> hd t \<noteq> 73 \<Longrightarrow> take 8 t \<noteq> str ''Infinity''"
  by (cases t) (auto simp: str_def)

lemma not_digit_marks: "\<not> is_digit 0x27" "\<not> is_digit 0x2E"
  by (simp_all add: is_digit_def)

lemma exponent_part_feet: "exponent_part [0x27] = 0"
  by (simp add: exponent_part_def)

lemma unsigned_literal_decimal:
  assumes D: "\<forall>c\<in>set D. is_digit c" and fp: "\<forall>c\<in>set fp. is_digit c" and ne: "D \<noteq> [] \<or> fp \<noteq> []"
  shows "unsigned_literal (D @ (if fp = [] then [] else 0x2E # fp) @ [0x27])
           = Fin (of_nat (digits_value D) + of_nat (digits_value fp) / 10 ^ length fp)"
proof -
  let ?t = "D @ (if fp = [] then [] else 0x2E # fp) @ [0x27]"
  have "hd ?t \<noteq> 73"
  proof (cases D)
    case Nil
    with ne show ?thesis by simp
  next
    case (Cons c D')
    with D have "is_digit c" by simp
    then show ?thesis using Cons by (auto simp: is_digit_def)
  qed
  then have i: "take 8 ?t \<noteq> str ''Infinity''" by (intro take8_not_Infinity) simp_all
  show ?thesis
  proof (cases "fp = []")
    case True
    with ne have "D \<noteq> []" by simp
    have tw: "takeWhile is_digit (D @ [39]) = D" and dw: "dropWhile is_digit (D @ [39]) = [39]"
      using D by (simp_all add: not_digit_marks)
    from i True \<open>D \<noteq> []\<close> show ?thesis
      unfolding unsigned_literal_def
      by (simp add: Let_def tw dw exponent_part_feet pow10_def digits_value_Nil)
  next
    case False
    have tw: "takeWhile is_digit (D @ 46 # fp @ [39]) = D"
      and dw: "dropWhile is_digit (D @ 46 # fp @ [39]) = 46 # fp @ [39]"
      and tw2: "takeWhile is_digit (fp @ [39]) = fp"
      and dw2: "dropWhile is_digit (fp @ [39]) = [39]"
      using D fp by (simp_all add: not_digit_marks)
    from i False show ?thesis
      unfolding unsigned_literal_def
      by (simp add: Let_def tw dw tw2 dw2 exponent_part_feet pow10_def)
  qed
qed

lemma digit_not_special:
  "is_digit c \<Longrightarrow> \<not> is_whitespace c \<and> c \<noteq> 0x2B \<and> c \<noteq> 0x2D \<and> c \<noteq> 0x27 \<and> c \<noteq> 0x2E"
  by (auto simp: is_digit_def is_whitespace_def)

lemma parseFloat_decimal:
  assumes D: "\<forall>c\<in>set D. is_digit c" and fp: "\<forall>c\<in>set fp. is_digit c" and ne: "D \<noteq> [] \<or> fp \<noteq> []"
  shows "parseFloat (D @ (if fp = [] then [] else 0x2E # fp) @ [0x27])
           = Fin (of_nat (digits_value D) + of_nat (digits_value fp) / 10 ^ length fp)"
proof -
  let ?t = "D @ (if fp = [] then [] else 0x2E # fp) @ [0x27]"
  obtain c r where t: "?t = c # r" and c: "is_digit c \<or> c = 0x2E"
  proof (cases D)
    case Nil
    with ne that [of "0x2E" "fp @ [0x27]"] show ?thesis by simp
  next
    case (Cons c D')
    with D that [of c "D' @ (if fp = [] then [] else 0x2E # fp) @ [0x27]"] show ?thesis by simp
  qed
  from c have n: "\<not> is_whitespace c" "c \<noteq> 0x2B" "c \<noteq> 0x2D"
    using digit_not_special [of c] by (auto simp: is_whitespace_def)
  have "parseFloat ?t = unsigned_literal ?t"
    unfolding parseFloat_def t using n by simp
  then show ?thesis using unsigned_literal_decimal [OF assms] by simp
qed

subsection \<open>Normalising the display string\<close>

lemma replace_first_append:
  "c \<notin> set a \<Longrightarrow> replace_first c r (a @ c # b) = a @ r @ b"
  by (induction a) auto

lemma digits_no_glyph:
  assumes "\<forall>c\<in>set D. is_digit c"
  shows "0x215B \<notin> set D" "0xBC \<notin> set D" "0x215C \<notin> set D" "0xBD \<notin> set D"
    "0x215D \<notin> set D" "0xBE \<notin> set D" "0x215E \<notin> set D"
    "0x20 \<notin> set D" "0x2C \<notin> set D" "0x27 \<notin> set D" "0x2D \<notin> set D"
  using assms by (auto simp: is_digit_def)

lemma replace_fractions_plain:
  assumes "\<forall>c\<in>set t. c < 0x80"
  shows "replace_fractions t = t"
proof -
  have "0x215B \<notin> set t" "0xBC \<notin> set t" "0x215C \<notin> set t" "0xBD \<notin> set t"
    "0x215D \<notin> set t" "0xBE \<notin> set t" "0x215E \<notin> set t"
    using assms by auto
  then show ?thesis
    by (simp add: replace_fractions_def IMPERIAL_VULGAR_FRACTIONS_def indexOf_absent)
qed

lemma normalize_input_plain:
  assumes "\<forall>c\<in>set t. is_digit c \<or> c = 0x2E \<or> c = 0x27"
  shows "normalize_input t = t"
proof -
  have "0x20 \<notin> set t" "0x2C \<notin> set t" using assms by (auto simp: is_digit_def)
  moreover have "\<forall>c\<in>set t. c < 0x80" using assms by (auto simp: is_digit_def)
  ultimately show ?thesis
    by (simp add: normalize_input_def replace_all_absent replace_fractions_plain)
qed

lemma normalize_input_glyph:
  assumes D: "\<forall>c\<in>set D. is_digit c" and kg: "(k, g) \<in> set IMPERIAL_VULGAR_FRACTIONS"
  shows "normalize_input (D @ [g, 0x27]) = D @ k @ [0x27]"
proof -
  note n = digits_no_glyph [OF D]
  have g: "g \<noteq> 0x20" "g \<noteq> 0x2C" using kg by (auto simp: IMPERIAL_VULGAR_FRACTIONS_def)
  have a: "replace_all 0x2C [0x2E] (replace_all 0x20 [] (D @ [g, 0x27])) = D @ [g, 0x27]"
    using n g by (simp add: replace_all_absent)
  have "replace_fractions (D @ g # [0x27]) = D @ k @ [0x27]"
    using kg n
    by (auto simp: replace_fractions_def IMPERIAL_VULGAR_FRACTIONS_def indexOf_absent
        replace_first_append str_def)
  with a show ?thesis by (simp add: normalize_input_def)
qed

lemma processWidthInput_plain:
  assumes w: "w \<noteq> []"
    and nw: "normalize_input w = D @ (if fp = [] then [] else 0x2E # fp) @ [0x27]"
    and D: "\<forall>c\<in>set D. is_digit c" and fp: "\<forall>c\<in>set fp. is_digit c" and ne: "D \<noteq> [] \<or> fp \<noteq> []"
  shows "processWidthInput (Some w) (Some u)
           = Inr (Num (Fin (of_nat (digits_value D) + of_nat (digits_value fp) / 10 ^ length fp)))"
proof -
  let ?B = "D @ (if fp = [] then [] else 0x2E # fp)"
  let ?t = "?B @ [0x27]"
  let ?v = "of_nat (digits_value D) + of_nat (digits_value fp) / 10 ^ length fp :: rat"
  have t: "normalize_input w = ?t" using nw by simp
  have B: "0x27 \<notin> set ?B" "0x2D \<notin> set ?B"
    using digits_no_glyph(10,11) [OF D] digits_no_glyph(10,11) [OF fp] by auto
  obtain B0 d where B0: "?B = B0 @ [d]" and d: "is_digit d"
  proof (cases "fp = []")
    case True
    with ne have "D \<noteq> []" by simp
    then have "D = butlast D @ [last D]" by simp
    moreover have "is_digit (last D)" using D \<open>D \<noteq> []\<close> by simp
    ultimately show ?thesis using True that [of "butlast D" "last D"] by simp
  next
    case False
    then have "fp = butlast fp @ [last fp]" by simp
    then have "?B = (D @ 0x2E # butlast fp) @ [last fp]" using False by simp
    moreover have "is_digit (last fp)" using fp False by simp
    ultimately show ?thesis using that [of "D @ 0x2E # butlast fp" "last fp"] by blast
  qed
  have i: "indexOf ?t 0x27 = int (length ?B)"
    using B(1) indexOf_first [of "0x27" ?B "[]"] by simp
  have i': "indexOf (normalize_input w) 0x27 = int (length ?B)" unfolding t by (rule i)
  have l': "int (length (normalize_input w)) = int (length ?B) + 1" unfolding t by simp
  have "processWidthInput (Some w) (Some u)
      = Inr (Num (parseStringForUnits (normalize_input w) (Some u)))"
    using w by (simp add: processWidthInput_def Let_def i' l')
  then have single: "processWidthInput (Some w) (Some u) = Inr (Num (parseStringForUnits ?t (Some u)))"
    unfolding t .
  have s: "replace_all 0x2D [] ?t = ?t"
    using B(2) by (intro replace_all_absent) simp
  have p: "parseFloat ?t = Fin ?v"
    using parseFloat_decimal [OF D fp ne] by simp
  have f: "find (\<lambda>e. unit_matches (text_of e) ?t) WIDTH_INPUT_CONVERSION
           = Some \<lparr>text_of = [0x27], multiplier = 1\<rparr>"
    using find_feet_marker [OF d, of B0] unfolding B0 by simp
  have "parseStringForUnits ?t (Some u) = Fin ?v"
    unfolding parseStringForUnits_stripped s Let_def p f by simp
  with single show ?thesis by simp
qed

subsection \<open>The display string of a width below one thousand\<close>

lemma group_digits_short: "length ds \<le> 3 \<Longrightarrow> group_digits ds = ds"
  by (simp add: group_digits.simps [of ds])

lemma pad_left_value: "digits_value (pad_left p ds) = digits_value ds"
  by (simp add: pad_left_def digits_value_append digits_value_zeros)

lemma pad_left_length: "length ds \<le> p \<Longrightarrow> length (pad_left p ds) = p"
  by (simp add: pad_left_def)

lemma pad_left_digits: "\<forall>c\<in>set ds. is_digit c \<Longrightarrow> \<forall>c\<in>set (pad_left p ds). is_digit c"
  by (auto simp: pad_left_def is_digit_def)

lemma strip_trailing_zeros_digits:
  "\<forall>c\<in>set ds. is_digit c \<Longrightarrow> \<forall>c\<in>set (strip_trailing_zeros ds). is_digit c"
  using strip_trailing_zeros_set [of ds] by auto

lemma nat_digits_all_digits: "\<forall>c\<in>set (nat_digits n). is_digit c"
  using nat_digits_digit by blast

lemma fraction_digits_value:
  assumes "m < 1000"
  shows "(of_nat (digits_value (strip_trailing_zeros (pad_left 3 (nat_digits m)))) :: rat)
           / 10 ^ length (strip_trailing_zeros (pad_left 3 (nat_digits m)))
         = of_nat m / 1000"
proof -
  have "length (nat_digits m) \<le> 3" using assms by (intro length_nat_digits_le) simp_all
  then have "length (pad_left 3 (nat_digits m)) = 3" by (rule pad_left_length)
  then show ?thesis
    by (simp add: strip_trailing_zeros_value pad_left_value digits_value_nat_digits)
qed

lemma round_half_up_near: "\<bar>of_int (round_half_up y) - y\<bar> \<le> 1 / 2"
proof -
  have "of_int \<lfloor>y + 1 / 2\<rfloor> \<le> y + 1 / 2" "y + 1 / 2 < of_int \<lfloor>y + 1 / 2\<rfloor> + 1"
    by linarith+
  then show ?thesis unfolding round_half_up_def by linarith
qed

lemma round_half_up_nonneg: "0 \<le> y \<Longrightarrow> 0 \<le> round_half_up y"
  unfolding round_half_up_def by simp

lemma round_half_up_int: "round_half_up (of_int i) = i"
  unfolding round_half_up_def by linarith

lemma format_decimal_small:
  assumes "0 \<le> x" and n: "n = nat (round_half_up (x * 1000))" and "n < 1000000"
  shows "format_decimal 3 x
           = nat_digits (n div 1000)
             @ (if strip_trailing_zeros (pad_left 3 (nat_digits (n mod 1000))) = [] then []
                else 0x2E # strip_trailing_zeros (pad_left 3 (nat_digits (n mod 1000))))"
proof -
  have "n div 1000 < 10 ^ 3" using assms(3) by simp
  then have "length (nat_digits (n div 1000)) \<le> 3" by (intro length_nat_digits_le) simp_all
  then have g: "group_digits (nat_digits (n div 1000)) = nat_digits (n div 1000)"
    by (rule group_digits_short)
  have a: "\<bar>x\<bar> = x" using assms(1) by simp
  show ?thesis
    unfolding format_decimal_def Let_def a using assms(1) g
    by (simp add: n [symmetric])
qed

lemma format_decimal_value:
  assumes "0 \<le> x" and n: "n = nat (round_half_up (x * 1000))" and "n < 1000000"
  shows "processWidthInput (Some (format_decimal 3 x @ [0x27])) (Some u)
           = Inr (Num (Fin (of_nat n / 1000)))"
proof -
  let ?D = "nat_digits (n div 1000)"
  let ?fp = "strip_trailing_zeros (pad_left 3 (nat_digits (n mod 1000)))"
  let ?t = "?D @ (if ?fp = [] then [] else 0x2E # ?fp) @ [0x27]"
  have f: "format_decimal 3 x @ [0x27] = ?t"
    using format_decimal_small [OF assms] by simp
  have D: "\<forall>c\<in>set ?D. is_digit c" by (rule nat_digits_all_digits)
  have fp: "\<forall>c\<in>set ?fp. is_digit c"
    by (intro strip_trailing_zeros_digits pad_left_digits nat_digits_all_digits)
  have ne: "?D \<noteq> [] \<or> ?fp \<noteq> []" by (simp add: nat_digits_not_Nil)
  have "\<forall>c\<in>set ?t. is_digit c \<or> c = 0x2E \<or> c = 0x27" using D fp by auto
  then have nt: "normalize_input ?t = ?t" by (rule normalize_input_plain)
  have "?t \<noteq> []" by simp
  from processWidthInput_plain [OF this nt D fp ne, of u]
  have "processWidthInput (Some ?t) (Some u)
      = Inr (Num (Fin (of_nat (n div 1000) + of_nat (n mod 1000) / 1000)))"
    by (simp add: digits_value_nat_digits fraction_digits_value)
  moreover have "(of_nat (n div 1000) + of_nat (n mod 1000) / 1000 :: rat) = of_nat n / 1000"
  proof -
    have "n = n div 1000 * 1000 + n mod 1000" by simp
    then have "(of_nat n :: rat) = of_nat (n div 1000) * 1000 + of_nat (n mod 1000)"
      by (metis of_nat_add of_nat_mult of_nat_numeral)
    then show ?thesis by simp
  qed
  ultimately show ?thesis unfolding f by simp
qed

lemma format_decimal_integer:
  assumes "0 < i" "i < 1000"
  shows "format_decimal 3 (of_int i) = nat_digits (nat i)"
proof -
  have r: "round_half_up (of_int i * 1000) = i * 1000"
    using round_half_up_int [of "i * 1000"] by simp
  have n: "nat i * 1000 = nat (round_half_up (of_int i * 1000))"
    using assms by (simp add: r nat_mult_distrib)
  have z: "strip_trailing_zeros (pad_left 3 (nat_digits 0)) = []"
    by (simp add: nat_digits.simps pad_left_def strip_trailing_zeros_def)
  from format_decimal_small [OF _ n] assms show ?thesis by (simp add: z)
qed

subsection \<open>The decimal string of a remainder\<close>

lemma pow10_powi: "pow10 e = 10 powi e"
  by (simp add: pow10_def power_int_def power_inverse [symmetric] inverse_eq_divide power_one_over)

lemma pow10_add: "pow10 (a + b) = pow10 a * pow10 b"
  by (simp add: pow10_powi power_int_add)

lemma pow10_nat: "pow10 (int k) = 10 ^ k"
  by (simp add: pow10_def)

lemma pow10_ge_one: "0 \<le> e \<Longrightarrow> 1 \<le> pow10 e"
  by (simp add: pow10_def)

lemma pow10_mono: "a \<le> b \<Longrightarrow> pow10 a \<le> pow10 b"
proof -
  assume "a \<le> b"
  then have "1 \<le> pow10 (b - a)" by (intro pow10_ge_one) simp
  moreover have "pow10 b = pow10 a * pow10 (b - a)" using pow10_add [of a "b - a"] by simp
  moreover have "0 < pow10 a" by (rule pow10_pos)
  ultimately show ?thesis by (simp add: mult_le_cancel_left1)
qed

lemma pow10_pred: "pow10 (e - 1) = pow10 e / 10"
  using pow10_add [of "e - 1" 1] by (simp add: pow10_def)

lemma small_exponent_bounds:
  "0 < x \<Longrightarrow> x < 1 \<Longrightarrow>
   small_exponent x \<le> 0 \<and> pow10 (small_exponent x - 1) \<le> x \<and> x < pow10 (small_exponent x)"
proof (induction x rule: small_exponent.induct)
  case (1 x)
  show ?case
  proof (cases "x * 10 < 1")
    case True
    with "1.prems" have s: "small_exponent x = small_exponent (x * 10) - 1"
      by (simp add: small_exponent.simps [of x])
    from True "1.prems" have "0 < x \<and> x * 10 < 1" "0 < x * 10" by simp_all
    from "1.IH" [OF this True]
    have ih: "small_exponent (x * 10) \<le> 0"
      "pow10 (small_exponent (x * 10) - 1) \<le> x * 10"
      "x * 10 < pow10 (small_exponent (x * 10))" by simp_all
    have "pow10 (small_exponent x - 1) = pow10 (small_exponent (x * 10) - 1) / 10"
      unfolding s by (rule pow10_pred)
    moreover have "pow10 (small_exponent x) = pow10 (small_exponent (x * 10)) / 10"
      unfolding s by (rule pow10_pred)
    ultimately show ?thesis using ih s by simp
  next
    case False
    with "1.prems" have "small_exponent x = 0" by (simp add: small_exponent.simps [of x])
    with False "1.prems" show ?thesis by (simp add: pow10_def)
  qed
qed

lemma significant_digits_spec:
  assumes "0 < r" "r < 1"
  obtains s n where "significant_digits r = (strip_trailing_zeros (nat_digits s), n)"
    and "10 ^ 16 \<le> s" and "s < 10 ^ 17" and "n \<le> 1" and "n = 1 \<longrightarrow> s = 10 ^ 16"
    and "\<bar>r - of_nat s * pow10 (n - 17)\<bar> \<le> pow10 (- 17) / 2"
proof -
  define n0 where "n0 = small_exponent r"
  define y where "y = r * pow10 (17 - n0)"
  define s0 where "s0 = nat (round_half_up y)"
  have b: "n0 \<le> 0" "pow10 (n0 - 1) \<le> r" "r < pow10 n0"
    using small_exponent_bounds [OF assms] by (simp_all add: n0_def)
  have p: "0 < pow10 (17 - n0)" by (rule pow10_pos)
  have "pow10 (n0 - 1) * pow10 (17 - n0) \<le> y"
    unfolding y_def using b(2) p by (simp add: mult_le_cancel_right)
  moreover have "pow10 (n0 - 1) * pow10 (17 - n0) = 10 ^ 16"
    using pow10_add [of "n0 - 1" "17 - n0"] pow10_nat [of 16] by simp
  ultimately have y1: "10 ^ 16 \<le> y" by simp
  have "y < pow10 n0 * pow10 (17 - n0)"
    unfolding y_def using b(3) p by (simp add: mult_less_cancel_right)
  moreover have "pow10 n0 * pow10 (17 - n0) = 10 ^ 17"
    using pow10_add [of n0 "17 - n0"] pow10_nat [of 17] by simp
  ultimately have y2: "y < 10 ^ 17" by simp
  have rn: "0 \<le> round_half_up y" using y1 by (intro round_half_up_nonneg) simp
  have near: "\<bar>of_nat s0 - y\<bar> \<le> 1 / 2"
    using round_half_up_near [of y] rn by (simp add: s0_def)
  have s1: "10 ^ 16 \<le> s0"
  proof -
    have "rat_of_int (10 ^ 16) \<le> y + 1 / 2" using y1 by simp
    then have "(10 ^ 16 :: int) \<le> round_half_up y" unfolding round_half_up_def by (simp only: le_floor_iff)
    then show ?thesis unfolding s0_def using rn by (simp add: le_nat_iff)
  qed
  have s2: "s0 \<le> 10 ^ 17"
  proof -
    have "y + 1 / 2 < rat_of_int (10 ^ 17 + 1)" using y2 by simp
    then have "round_half_up y < 10 ^ 17 + 1" unfolding round_half_up_def by (simp only: floor_less_iff)
    then show ?thesis unfolding s0_def by (simp add: nat_le_iff)
  qed
  have r: "r = y * pow10 (n0 - 17)"
    unfolding y_def using pow10_add [of "17 - n0" "n0 - 17"] by (simp add: pow10_def)
  have "\<bar>r - of_nat s0 * pow10 (n0 - 17)\<bar> = \<bar>y - of_nat s0\<bar> * pow10 (n0 - 17)"
    unfolding r using pow10_pos [of "n0 - 17"]
    by (simp add: left_diff_distrib [symmetric] abs_mult)
  also have "\<dots> \<le> 1 / 2 * pow10 (n0 - 17)"
    using near pow10_pos [of "n0 - 17"] by (simp add: abs_minus_commute)
  also have "\<dots> \<le> 1 / 2 * pow10 (- 17)"
    using pow10_mono [of "n0 - 17" "- 17"] b(1) by simp
  finally have e: "\<bar>r - of_nat s0 * pow10 (n0 - 17)\<bar> \<le> pow10 (- 17) / 2" by simp
  have d: "decimal_exponent r = n0" using assms by (simp add: decimal_exponent_def n0_def)
  show ?thesis
  proof (cases "10 ^ 17 \<le> s0")
    case True
    with s2 have s0: "s0 = 10 ^ 17" by simp
    have sd: "significant_digits r = (strip_trailing_zeros (nat_digits (10 ^ 16)), n0 + 1)"
      unfolding significant_digits_def d Let_def y_def [symmetric] s0_def [symmetric]
      by (simp add: s0)
    have "rat_of_nat (10 ^ 16) * pow10 (n0 + 1 - 17) = of_nat s0 * pow10 (n0 - 17)"
      using pow10_add [of "n0 - 17" 1] by (simp add: s0 pow10_def [of 1] algebra_simps)
    with e have "\<bar>r - of_nat (10 ^ 16) * pow10 (n0 + 1 - 17)\<bar> \<le> pow10 (- 17) / 2" by simp
    with sd b(1) show ?thesis by (intro that [of "10 ^ 16" "n0 + 1"]) simp_all
  next
    case False
    then have sd: "significant_digits r = (strip_trailing_zeros (nat_digits s0), n0)"
      unfolding significant_digits_def d Let_def y_def [symmetric] s0_def [symmetric]
      by simp
    with False s1 e b(1) show ?thesis by (intro that [of s0 n0]) simp_all
  qed
qed

lemma not_digit_e: "\<not> is_digit 0x65"
  by (simp add: is_digit_def)

lemma positive_to_string_fraction:
  assumes "0 < r" "r < 1"
    and str: "positive_to_string r = c # 0x2E # kd"
    and kd: "\<forall>d\<in>set kd. is_digit d"
  shows "\<bar>r - of_nat (digits_value kd) / 10 ^ length kd\<bar> \<le> pow10 (- 17) / 2"
proof -
  from assms(1,2) obtain s n where
    sd: "significant_digits r = (strip_trailing_zeros (nat_digits s), n)"
    and s: "10 ^ 16 \<le> s" "s < 10 ^ 17" and n: "n \<le> 1" "n = 1 \<longrightarrow> s = 10 ^ 16"
    and near: "\<bar>r - of_nat s * pow10 (n - 17)\<bar> \<le> pow10 (- 17) / 2"
    by (rule significant_digits_spec)
  define ds where "ds = strip_trailing_zeros (nat_digits s)"
  define j where "j = length (nat_digits s) - length ds"
  have dec: "nat_digits s = ds @ replicate j 48"
    unfolding ds_def j_def by (rule strip_trailing_zeros_decomp)
  have "length (nat_digits s) \<le> 17" using s(2) by (intro length_nat_digits_le) simp_all
  moreover have "16 < length (nat_digits s)" using s(1) by (rule length_nat_digits_gt)
  ultimately have L: "length (nat_digits s) = 17" by simp
  then have lj: "length ds + j = 17" using arg_cong [OF dec, of length] by simp
  have "digits_value (nat_digits s) = digits_value ds * 10 ^ j"
    by (subst dec) (simp add: digits_value_append digits_value_zeros)
  then have sv: "s = digits_value ds * 10 ^ j" by (simp add: digits_value_nat_digits)
  have ne: "ds \<noteq> []"
  proof
    assume "ds = []"
    with sv have "s = 0" by (simp add: digits_value_Nil)
    with s(1) show False by simp
  qed
  have lay: "layout_digits ds n = c # 0x2E # kd"
    using str unfolding positive_to_string_def sd ds_def by simp
  let ?k = "int (length ds)"
  have k1: "1 \<le> ?k" using ne by (cases ds) simp_all
  have notA: "\<not> (?k \<le> n \<and> n \<le> 21)"
  proof
    assume a: "?k \<le> n \<and> n \<le> 21"
    with n(1) k1 have "n = 1" "length ds = 1" by simp_all
    with a lay have "ds = c # 0x2E # kd" by (simp add: layout_digits_def)
    with \<open>length ds = 1\<close> show False by simp
  qed
  have notB: "\<not> (0 < n \<and> n \<le> 21)"
  proof
    assume "0 < n \<and> n \<le> 21"
    with n have "n = 1" "s = 10 ^ 16" by simp_all
    then have "ds = [49]"
      unfolding ds_def by (simp add: nat_digits.simps strip_trailing_zeros_def)
    with \<open>n = 1\<close> notA show False by simp
  qed
  show ?thesis
  proof (cases "- 6 < n \<and> n \<le> 0")
    case True
    with notA notB lay have "[48, 0x2E] @ replicate (nat (- n)) 48 @ ds = c # 0x2E # kd"
      by (simp add: layout_digits_def Let_def)
    then have kdv: "kd = replicate (nat (- n)) 48 @ ds" by simp
    have v: "digits_value kd = digits_value ds"
      unfolding kdv by (simp add: digits_value_append digits_value_zeros)
    have l: "length kd = nat (- n) + length ds" unfolding kdv by simp
    have "pow10 (n - 17) = 1 / 10 ^ nat (17 - n)" using True by (simp add: pow10_def)
    moreover have "nat (17 - n) = j + (nat (- n) + length ds)" using True lj by linarith
    ultimately have "pow10 (n - 17) = 1 / (10 ^ j * 10 ^ (nat (- n) + length ds))"
      by (simp add: power_add)
    then have "of_nat s * pow10 (n - 17) = of_nat (digits_value kd) / 10 ^ length kd"
      unfolding sv v l by simp
    with near show ?thesis by simp
  next
    case False
    define tail where "tail = [0x65, (if n - 1 < 0 then 0x2D else 0x2B)] @ nat_digits (nat \<bar>n - 1\<bar>)"
    have "layout_digits ds n = (if ?k = 1 then ds else [hd ds, 0x2E] @ tl ds) @ tail"
      unfolding tail_def by (simp add: layout_digits_def Let_def False notA notB)
    with lay have e: "(if ?k = 1 then ds else [hd ds, 0x2E] @ tl ds) @ tail = c # 0x2E # kd"
      by simp
    show ?thesis
    proof (cases "?k = 1")
      case True
      then obtain d0 where "ds = [d0]" by (cases ds) auto
      with e True have "0x65 = (0x2E::nat)" by (simp add: tail_def)
      then show ?thesis by simp
    next
      case False
      with e have "kd = tl ds @ tail" by simp
      then have "0x65 \<in> set kd" by (simp add: tail_def)
      with kd not_digit_e show ?thesis by blast
    qed
  qed
qed

lemma vulgar_key_shape:
  assumes "(k, g) \<in> set IMPERIAL_VULGAR_FRACTIONS"
  obtains kd where "k = 0x2E # kd" and "kd \<noteq> []" and "\<forall>d\<in>set kd. is_digit d"
proof -
  from assms have "\<exists>kd. k = 0x2E # kd \<and> kd \<noteq> [] \<and> (\<forall>d\<in>set kd. is_digit d)"
    by (auto simp: IMPERIAL_VULGAR_FRACTIONS_def str_def is_digit_def)
  with that show ?thesis by blast
qed

lemma getImperialMeasurementWithVulgarFractions_Some:
  "vulgar_fraction (drop 1 (number_to_string (num_minus v (math_floor v)))) = Some g \<Longrightarrow>
   getImperialMeasurementWithVulgarFractions v
     = (if truthy (math_floor v)
        then stringifyMeasurementValue (math_floor v) (Some SETTINGS_UNITS_IMPERIAL) else [])
       @ [g]"
  by (simp add: getImperialMeasurementWithVulgarFractions_def Let_def)

lemma getImperialMeasurementWithVulgarFractions_None:
  "vulgar_fraction (drop 1 (number_to_string (num_minus v (math_floor v)))) = None \<Longrightarrow>
   getImperialMeasurementWithVulgarFractions v
     = stringifyMeasurementValue v (Some SETTINGS_UNITS_IMPERIAL)"
  by (simp add: getImperialMeasurementWithVulgarFractions_def Let_def)

lemma format_decimal_zero: "format_decimal 3 0 = [48]"
  by (simp add: format_eval)

subsection \<open>The round trip\<close>

text \<open>
  Claim C1 as stated fails at the width 1000: the display string is \<^verbatim>\<open>1,000'\<close>, with
  the grouping comma of the locale; the parser turns the comma into a decimal point and
  reads 1.
\<close>

theorem prettifyWidth_roundtrip_counterexample:
  "\<not> (\<exists>a. processWidthInput
              (Some (prettifyWidth (Fin 1000) (Some SETTINGS_UNITS_IMPERIAL) False))
              (Some SETTINGS_UNITS_IMPERIAL) = Inr (Num a)
            \<and> num_within (1 / 8) a 1000)"
proof -
  have e: \<open>prettifyWidth (Fin 1000) (Some SETTINGS_UNITS_IMPERIAL) False = str ''1,000'' @ [0x27]\<close>
    by (simp add: format_eval)
  have p: \<open>processWidthInput (Some (str ''1,000'' @ [0x27])) (Some SETTINGS_UNITS_IMPERIAL)
      = Inr (Num (Fin 1))\<close>
    by (simp add: parse_eval)
  show ?thesis unfolding e p by simp
qed

text \<open>
  Claim C1, amended. For every width \<open>v\<close> with \<open>0 \<le> v < 999.9995\<close> (the display string
  then has no grouping comma), parsing the imperial display string of \<open>v\<close> gives a number
  whose distance from \<open>v\<close> is at most 0.125.
\<close>

theorem prettifyWidth_roundtrip:
  assumes "0 \<le> x" and "x < 9999995 / 10000"
  shows "\<exists>a. processWidthInput
                (Some (prettifyWidth (Fin x) (Some SETTINGS_UNITS_IMPERIAL) False))
                (Some SETTINGS_UNITS_IMPERIAL) = Inr (Num a)
             \<and> num_within (1 / 8) a x"
proof -
  let ?u = "Some SETTINGS_UNITS_IMPERIAL"
  define i where "i = \<lfloor>x\<rfloor>"
  define r where "r = x - of_int i"
  have i: "0 \<le> i" "i < 1000"
    using assms unfolding i_def by (simp_all add: floor_less_iff)
  have r: "0 \<le> r" "r < 1" unfolding r_def i_def by linarith+
  have rem: "num_minus (Fin x) (math_floor (Fin x)) = Fin r"
    "num_minus (Fin x) (Fin (of_int \<lfloor>x\<rfloor>)) = Fin r"
    by (simp_all add: num_minus_def r_def i_def)
  show ?thesis
  proof (cases "vulgar_fraction (drop 1 (number_to_string (Fin r)))")
    case None
    have "stringifyMeasurementValue (Fin x) ?u = format_decimal 3 x"
      by (simp add: stringifyMeasurementValue_def IMPERIAL_PRECISION_def format_decimal_zero str_def)
    moreover from None have "getImperialMeasurementWithVulgarFractions (Fin x)
        = stringifyMeasurementValue (Fin x) ?u"
      by (intro getImperialMeasurementWithVulgarFractions_None) (simp only: rem)
    ultimately have t: "prettifyWidth (Fin x) ?u False = format_decimal 3 x @ [0x27]"
      by (simp add: prettifyWidth_def)
    define n where "n = nat (round_half_up (x * 1000))"
    have "x * 1000 + 1 / 2 < rat_of_int 1000000" using assms(2) by simp
    then have "round_half_up (x * 1000) < 1000000"
      unfolding round_half_up_def by (simp only: floor_less_iff)
    then have n: "n < 1000000" unfolding n_def by simp
    have p: "processWidthInput (Some (format_decimal 3 x @ [0x27])) ?u
        = Inr (Num (Fin (of_nat n / 1000)))"
      using assms(1) n_def n by (rule format_decimal_value)
    have "0 \<le> round_half_up (x * 1000)" using assms(1) by (intro round_half_up_nonneg) simp
    then have "\<bar>rat_of_nat n - x * 1000\<bar> \<le> 1 / 2"
      using round_half_up_near [of "x * 1000"] by (simp add: n_def)
    then have "\<bar>rat_of_nat n / 1000 - x\<bar> \<le> 1 / 8" by linarith
    with p show ?thesis unfolding t by simp
  next
    case (Some g)
    then have kg: "(drop 1 (number_to_string (Fin r)), g) \<in> set IMPERIAL_VULGAR_FRACTIONS"
      unfolding vulgar_fraction_def by (rule map_of_SomeD)
    then obtain kd where k: "drop 1 (number_to_string (Fin r)) = 0x2E # kd"
      and kd: "kd \<noteq> []" "\<forall>d\<in>set kd. is_digit d"
      by (rule vulgar_key_shape)
    have "r \<noteq> 0" using k by (auto simp: str_def)
    with r have r0: "0 < r" by simp
    then have "drop 1 (positive_to_string r) = 0x2E # kd" using k by simp
    then obtain c where "positive_to_string r = c # 0x2E # kd"
      by (cases "positive_to_string r") auto
    from positive_to_string_fraction [OF r0 r(2) this kd(2)]
    have near: "\<bar>r - of_nat (digits_value kd) / 10 ^ length kd\<bar> \<le> pow10 (- 17) / 2" .
    define D where "D = (if i \<noteq> 0 then nat_digits (nat i) else [])"
    have D: "\<forall>c\<in>set D. is_digit c" unfolding D_def using nat_digits_digit by auto
    have Dv: "rat_of_nat (digits_value D) = of_int i"
      using i(1) unfolding D_def by (simp add: digits_value_nat_digits digits_value_Nil)
    have mf: "math_floor (Fin x) = Fin (of_int i)" by (simp add: i_def)
    have "format_decimal 3 (of_int i) = nat_digits (nat i)" if "i \<noteq> 0"
      using that i by (intro format_decimal_integer) simp_all
    then have st: "stringifyMeasurementValue (Fin (of_int i)) ?u = nat_digits (nat i)" if "i \<noteq> 0"
      using that by (simp add: stringifyMeasurementValue_def IMPERIAL_PRECISION_def)
    from Some have "getImperialMeasurementWithVulgarFractions (Fin x)
        = (if truthy (math_floor (Fin x))
           then stringifyMeasurementValue (math_floor (Fin x)) ?u else []) @ [g]"
      by (intro getImperialMeasurementWithVulgarFractions_Some) (simp only: rem)
    also have "\<dots> = D @ [g]"
      unfolding mf D_def using st by simp
    finally have "getImperialMeasurementWithVulgarFractions (Fin x) = D @ [g]" .
    then have t: "prettifyWidth (Fin x) ?u False = D @ [g, 0x27]"
      by (simp add: prettifyWidth_def)
    have nt: "normalize_input (D @ [g, 0x27]) = D @ (if kd = [] then [] else 0x2E # kd) @ [0x27]"
      using normalize_input_glyph [OF D kg] k kd(1) by simp
    have "D @ [g, 0x27] \<noteq> []" by simp
    from processWidthInput_plain [OF this nt D kd(2)] kd(1)
    have p: "processWidthInput (Some (D @ [g, 0x27])) ?u
        = Inr (Num (Fin (of_int i + of_nat (digits_value kd) / 10 ^ length kd)))"
      by (simp add: Dv)
    have "pow10 (- 17) / 2 \<le> 1 / 8" by (simp add: pow10_def)
    with near have "\<bar>(of_int i + of_nat (digits_value kd) / 10 ^ length kd) - x\<bar> \<le> 1 / 8"
      unfolding r_def by linarith
    with p show ?thesis unfolding t by simp
  qed
qed

theorem prettifyWidth_roundtrip_witness:
  \<open>(0 :: rat) \<le> 1 / 3 \<and> (1 / 3 :: rat) < 9999995 / 10000 \<and>
   (\<exists>a. processWidthInput
          (Some (prettifyWidth (Fin (1 / 3)) (Some SETTINGS_UNITS_IMPERIAL) False))
          (Some SETTINGS_UNITS_IMPERIAL) = Inr (Num a)
        \<and> num_within (1 / 8) a (1 / 3)) \<and>
   prettifyWidth (Fin (1 / 3)) (Some SETTINGS_UNITS_IMPERIAL) False = str ''0.333'' @ [0x27] \<and>
   processWidthInput (Some (str ''0.333'' @ [0x27])) (Some SETTINGS_UNITS_IMPERIAL)
     = Inr (Num (Fin (333 / 1000)))\<close>
proof -
  have a: "(0 :: rat) \<le> 1 / 3" "(1 / 3 :: rat) < 9999995 / 10000" by simp_all
  have e: \<open>prettifyWidth (Fin (1 / 3)) (Some SETTINGS_UNITS_IMPERIAL) False = str ''0.333'' @ [0x27]\<close>
    by (simp add: format_eval)
  have p: \<open>processWidthInput (Some (str ''0.333'' @ [0x27])) (Some SETTINGS_UNITS_IMPERIAL)
      = Inr (Num (Fin (333 / 1000)))\<close>
    by (simp add: parse_eval)
  from prettifyWidth_roundtrip [OF a] a e p show ?thesis by blast
qed

end
